theory Spec2Isabelle
  imports Main "HOL-Library.AList" "HOL-Library.Sublist"
begin

section \<open>The request and response model of grpcstub\<close>

text \<open>
  A shallow embedding of \<^verbatim>\<open>grpcstub.go\<close>. Go strings are byte strings, so a
  \<^typ>\<open>string\<close> (a list of bytes) models them exactly.

  What the model takes for granted:
  \<^item> one call at a time: the locks \<^verbatim>\<open>s.mu\<close> and \<^verbatim>\<open>m.mu\<close> make every append to
    a log atomic, and the interleaving of concurrent calls is not modelled;
  \<^item> the functions a caller supplies (predicates, handlers) are pure and total, and a
    handler returns an allocated \<^verbatim>\<open>*Response\<close> whose maps are allocated;
  \<^item> the gRPC runtime, the codec and the network are parameters: whatever they can
    answer, errors included, is an input of the model.
\<close>

subsection \<open>The functions of package strings that the code calls\<close>

text \<open>
  \<^verbatim>\<open>strings.Contains(s, "/")\<close>, \<^verbatim>\<open>strings.Split(s, "/")\<close> and
  \<^verbatim>\<open>strings.Join(xs, "/")\<close> are only ever called with a separator of one byte
  (\<^verbatim>\<open>"/"\<close> or \<^verbatim>\<open>"."\<close>); the separator is a \<^typ>\<open>char\<close> here.
  \<^verbatim>\<open>Split\<close> cuts at every separator and returns one more piece than there
  are separators, so its result is never empty.
\<close>

definition Contains :: "string \<Rightarrow> char \<Rightarrow> bool" where
  "Contains s c = (c \<in> set s)"

definition TrimPrefix :: "string \<Rightarrow> string \<Rightarrow> string" where
  "TrimPrefix s p = (if take (length p) s = p then drop (length p) s else s)"

fun Split :: "string \<Rightarrow> char \<Rightarrow> string list" where
  "Split [] c = [[]]"
| "Split (x # xs) c =
     (if x = c then [] # Split xs c
      else (x # hd (Split xs c)) # tl (Split xs c))"

fun Join :: "string list \<Rightarrow> char \<Rightarrow> string" where
  "Join [] c = []"
| "Join [x] c = x"
| "Join (x # y # ys) c = x @ c # Join (y # ys) c"

text \<open>
  \<^verbatim>\<open>strings.ToLower\<close>, which \<^verbatim>\<open>metadata\<close> applies to keys: the letters
  \<^verbatim>\<open>A\<close> to \<^verbatim>\<open>Z\<close> become \<^verbatim>\<open>a\<close> to \<^verbatim>\<open>z\<close>. The model leaves every other byte as
  it is, which is what Go does on ASCII strings; the letters outside ASCII that Go also
  maps are not modelled.
\<close>

definition lowerChar :: "char \<Rightarrow> char" where
  "lowerChar c =
     (let n = (of_char c :: nat)
      in if 65 \<le> n \<and> n \<le> 90 then char_of (n + 32) else c)"

definition ToLower :: "string \<Rightarrow> string" where
  "ToLower s = map lowerChar s"

subsection \<open>Messages, metadata, status\<close>

text \<open>
  \<^verbatim>\<open>type Message map[string]interface{}\<close>: a generic JSON document. Numbers are
  kept as integers; no function of the code computes with them.
\<close>

datatype json =
    JNull
  | JBool bool
  | JNumber int
  | JString string
  | JArray "json list"
  | JObject "(string \<times> json) list"

type_synonym Message = "(string \<times> json) list"

text \<open>
  \<^verbatim>\<open>metadata.MD\<close> is \<^verbatim>\<open>map[string][]string\<close>. It is an association list
  with one entry for each key, in the order the keys were first added. Go leaves the
  order in which \<^verbatim>\<open>range\<close> visits a map open; the model visits the entries in
  list order, and nothing below depends on that order.
\<close>

type_synonym MD = "(string \<times> string list) list"

text \<open>\<^verbatim>\<open>md.Append(k, v)\<close>: \<^verbatim>\<open>k = strings.ToLower(k); md[k] = append(md[k], v)\<close>.\<close>

definition MD_Append :: "MD \<Rightarrow> string \<Rightarrow> string \<Rightarrow> MD" where
  "MD_Append md k v =
     (let k' = ToLower k
      in AList.update k' ((case map_of md k' of None \<Rightarrow> [] | Some vs \<Rightarrow> vs) @ [v]) md)"

text \<open>\<^verbatim>\<open>metadata.Pairs(k, v)\<close>: the metadata with the single entry \<^verbatim>\<open>k: [v]\<close>.\<close>

definition Pairs :: "string \<Rightarrow> string \<Rightarrow> MD" where
  "Pairs k v = [(ToLower k, [v])]"

datatype Code =
    OK | Canceled | Unknown | InvalidArgument | DeadlineExceeded | NotFound
  | AlreadyExists | PermissionDenied | ResourceExhausted | FailedPrecondition
  | Aborted | OutOfRange | Unimplemented | Internal | Unavailable | DataLoss
  | Unauthenticated

text \<open>\<^verbatim>\<open>status.New(c, msg)\<close>.\<close>

datatype status = NewStatus (Code: Code) (Msg: string)

text \<open>
  The errors a handler can return: \<^verbatim>\<open>io.EOF\<close>, the error of a status
  (\<^verbatim>\<open>st.Err()\<close>), and any other error of the runtime or of the codec, named by
  its text.
\<close>

datatype error = EOF | StatusError status | Failure string

text \<open>
  \<^verbatim>\<open>res.Status != nil && res.Status.Err() != nil\<close>: \<^verbatim>\<open>Err\<close> is nil for the
  code \<^verbatim>\<open>OK\<close>.
\<close>

definition Status_Err :: "status option \<Rightarrow> error option" where
  "Status_Err st =
     (case st of None \<Rightarrow> None
      | Some s \<Rightarrow> if Code s = OK then None else Some (StatusError s))"

text \<open>\<^verbatim>\<open>status.Error(codes.NotFound, codes.NotFound.String())\<close>.\<close>

definition notFound :: error where
  "notFound = StatusError (NewStatus NotFound ''NotFound'')"

subsection \<open>Request, Response, matcher\<close>

text \<open>
  The field \<^verbatim>\<open>Headers\<close> of \<^verbatim>\<open>Request\<close> is \<open>ReqHeaders\<close> here, since a
  record field name is global; \<^verbatim>\<open>Headers\<close> is the field of \<^verbatim>\<open>Response\<close>.
\<close>

record Request =
  Service :: string
  Method :: string
  ReqHeaders :: MD
  Message :: Message

record Response =
  Headers :: MD
  Messages :: "Message list"
  Trailers :: MD
  Status :: "status option"

definition NewResponse :: Response where
  "NewResponse = \<lparr>Headers = [], Messages = [], Trailers = [], Status = None\<rparr>"

definition splitMethodFullName :: "string \<Rightarrow> string \<times> string" where
  "splitMethodFullName mn =
     (let splitted = Split mn (CHR ''.'')
      in (Join (butlast splitted) (CHR ''.''), last splitted))"

text \<open>
  \<^verbatim>\<open>newRequest(md, message)\<close>; of the method descriptor only the full name is
  read.
\<close>

definition newRequest :: "string \<Rightarrow> Message \<Rightarrow> Request" where
  "newRequest fullName message =
     (case splitMethodFullName fullName of
        (service, method) \<Rightarrow>
          \<lparr>Service = service, Method = method, ReqHeaders = [], Message = message\<rparr>)"

type_synonym matchFunc = "Request \<Rightarrow> bool"

text \<open>
  \<^verbatim>\<open>handlerFunc\<close> takes the request and the method descriptor; no handler the
  package installs reads the descriptor, so it is left out. The functions a caller
  supplies (\<^verbatim>\<open>Match\<close>, \<^verbatim>\<open>Handler\<close>) are pure total functions here, and a
  handler returns an allocated \<^verbatim>\<open>*Response\<close>.
  A matcher that was only given predicates has the handler \<^verbatim>\<open>nil\<close>: \<open>None\<close>.
\<close>

type_synonym handlerFunc = "Request \<Rightarrow> Response"

record matcher =
  matchFuncs :: "matchFunc list"
  handler :: "handlerFunc option"
  mrequests :: "Request list"

subsection \<open>Predicates on service and method\<close>

definition serviceMatchFunc :: "string \<Rightarrow> matchFunc" where
  "serviceMatchFunc service = (\<lambda>r. Service r = TrimPrefix service ''/'')"

definition methodMatchFunc :: "string \<Rightarrow> matchFunc" where
  "methodMatchFunc method = (\<lambda>r.
     if \<not> Contains method (CHR ''/'') then Method r = method
     else
       let splitted = Split (TrimPrefix method ''/'') (CHR ''/'');
           s = Join (butlast splitted) (CHR ''/'');
           m = last splitted
       in Service r = s \<and> Method r = m)"

subsection \<open>The server and the registration of matchers\<close>

datatype serverStatus =
  status_unknown | status_start | status_starting | status_closing | status_closed

text \<open>
  What the lifecycle operations touch outside the package: the TLS configuration, the
  credentials built from it, the client connection, the state of \<^verbatim>\<open>*grpc.Server\<close>,
  and what was reported to \<^verbatim>\<open>*testing.T\<close> (\<^verbatim>\<open>t.Error\<close> with a string or with
  an error value, in call order).
\<close>

record TLSConfig =
  InsecureSkipVerify :: bool
  RootCAs :: "string option"

datatype TransportCredentials = insecure_NewCredentials | credentials_NewTLS TLSConfig

datatype ClientConn = ClientConn string TransportCredentials

datatype grpc_Server = Created | Serving | GracefullyStopped | Stopped

datatype report = ErrorString string | ErrorValue error

text \<open>
  \<^verbatim>\<open>type Server struct\<close>. The listener is known by its address; the descriptor
  set and the lock are left out. \<open>t\<close> is what has been reported to the
  \<^verbatim>\<open>*testing.T\<close> that \<^verbatim>\<open>NewServer\<close> stores in every server it returns.
\<close>

record Server =
  matchers :: "matcher list"
  listener :: "string option"
  server :: grpc_Server
  tlsc :: "TLSConfig option"
  cacert :: "string option"
  cc :: "ClientConn option"
  requests :: "Request list"
  healthCheck :: bool
  status :: serverStatus
  t :: "report list"

text \<open>
  \<^verbatim>\<open>(s *Server) Match/Service/Method\<close> append a new matcher with one predicate
  and no handler; the matcher they return is the last of \<open>matchers\<close>.
\<close>

definition Server_Match :: "Server \<Rightarrow> matchFunc \<Rightarrow> Server" where
  "Server_Match s fn =
     s\<lparr>matchers := matchers s @ [\<lparr>matchFuncs = [fn], handler = None, mrequests = []\<rparr>]\<rparr>"

definition Server_Service :: "Server \<Rightarrow> string \<Rightarrow> Server" where
  "Server_Service s service =
     s\<lparr>matchers := matchers s @
        [\<lparr>matchFuncs = [serviceMatchFunc service], handler = None, mrequests = []\<rparr>]\<rparr>"

definition Server_Method :: "Server \<Rightarrow> string \<Rightarrow> Server" where
  "Server_Method s method =
     s\<lparr>matchers := matchers s @
        [\<lparr>matchFuncs = [methodMatchFunc method], handler = None, mrequests = []\<rparr>]\<rparr>"

text \<open>\<^verbatim>\<open>(m *matcher) Match/Service/Method\<close> append a predicate to the matcher.\<close>

definition matcher_Match :: "matcher \<Rightarrow> matchFunc \<Rightarrow> matcher" where
  "matcher_Match m fn = m\<lparr>matchFuncs := matchFuncs m @ [fn]\<rparr>"

definition matcher_Service :: "matcher \<Rightarrow> string \<Rightarrow> matcher" where
  "matcher_Service m service = m\<lparr>matchFuncs := matchFuncs m @ [serviceMatchFunc service]\<rparr>"

definition matcher_Method :: "matcher \<Rightarrow> string \<Rightarrow> matcher" where
  "matcher_Method m method = m\<lparr>matchFuncs := matchFuncs m @ [methodMatchFunc method]\<rparr>"

subsection \<open>Handler decorators\<close>

text \<open>
  \<^verbatim>\<open>prev := m.handler\<close> is read when the decorator is called; the new handler
  starts from \<^verbatim>\<open>NewResponse()\<close> when \<^verbatim>\<open>prev == nil\<close> and from
  \<^verbatim>\<open>prev(r, md)\<close> otherwise.
\<close>

definition previous :: "matcher \<Rightarrow> handlerFunc" where
  "previous m = (\<lambda>r. case handler m of None \<Rightarrow> NewResponse | Some prev \<Rightarrow> prev r)"

definition matcher_Header :: "matcher \<Rightarrow> string \<Rightarrow> string \<Rightarrow> matcher" where
  "matcher_Header m key val =
     m\<lparr>handler := Some (\<lambda>r. let res = previous m r
                            in res\<lparr>Headers := MD_Append (Headers res) key val\<rparr>)\<rparr>"

definition matcher_Trailer :: "matcher \<Rightarrow> string \<Rightarrow> string \<Rightarrow> matcher" where
  "matcher_Trailer m key val =
     m\<lparr>handler := Some (\<lambda>r. let res = previous m r
                            in res\<lparr>Trailers := MD_Append (Trailers res) key val\<rparr>)\<rparr>"

definition matcher_Handler :: "matcher \<Rightarrow> handlerFunc \<Rightarrow> matcher" where
  "matcher_Handler m fn = m\<lparr>handler := Some (\<lambda>r. fn r)\<rparr>"

definition matcher_Response :: "matcher \<Rightarrow> Message \<Rightarrow> matcher" where
  "matcher_Response m message =
     m\<lparr>handler := Some (\<lambda>r. let res = previous m r
                            in res\<lparr>Messages := Messages res @ [message]\<rparr>)\<rparr>"

definition matcher_Status :: "matcher \<Rightarrow> status \<Rightarrow> matcher" where
  "matcher_Status m st =
     m\<lparr>handler := Some (\<lambda>r. let res = previous m r in res\<lparr>Status := Some st\<rparr>)\<rparr>"

text \<open>
  \<^verbatim>\<open>m.handler(r, md)\<close> as the call handlers write it: calling a \<^verbatim>\<open>nil\<close>
  function panics (\<open>None\<close>).
\<close>

definition invoke :: "matcher \<Rightarrow> Request \<Rightarrow> Response option" where
  "invoke m r = (case handler m of None \<Rightarrow> None | Some h \<Rightarrow> Some (h r))"

section \<open>The call handlers\<close>

subsection \<open>What surrounds a call\<close>

text \<open>
  A handler talks to the gRPC runtime and to the codec of the method. The model makes
  that conversation a trace of events: a message taken from the stream
  (\<^verbatim>\<open>stream.RecvMsg\<close> returned \<^verbatim>\<open>nil\<close>; the event carries what the
  conversion of the message to a generic document gave), \<^verbatim>\<open>grpc.SetHeader\<close>,
  \<^verbatim>\<open>grpc.SetTrailer\<close>, \<^verbatim>\<open>stream.SendHeader\<close>, \<^verbatim>\<open>stream.SetTrailer\<close> and
  \<^verbatim>\<open>stream.SendMsg\<close>. Only operations that succeeded are in the trace.
\<close>

datatype 'w event =
    Received "error + Message"
  | SetHeader MD
  | SetTrailer MD
  | SendHeader MD
  | StreamSetTrailer MD
  | SendMsg 'w

text \<open>
  \<open>'w\<close> is the type of an encoded reply (\<^verbatim>\<open>*dynamicpb.Message\<close> of the output
  type). The surroundings of one call:
  \<^item> \<open>FullName\<close>: \<^verbatim>\<open>md.FullName()\<close>;
  \<^item> \<open>NewOutput\<close>: \<^verbatim>\<open>dynamicpb.NewMessage(md.Output())\<close>, the empty reply;
  \<^item> \<open>Encode\<close>: \<^verbatim>\<open>json.Marshal\<close> of a document, then
    \<^verbatim>\<open>protojson.Unmarshal\<close> into a new output message, or the error of either;
  \<^item> \<open>IncomingMD\<close>: \<^verbatim>\<open>metadata.FromIncomingContext\<close> (\<open>None\<close> when not ok);
  \<^item> \<open>Refuses\<close>: the error, if any, with which the runtime answers an
    operation, given what it has accepted so far.
\<close>

record 'w env =
  FullName :: string
  NewOutput :: 'w
  Encode :: "Message \<Rightarrow> error + 'w"
  IncomingMD :: "MD option"
  Refuses :: "'w event list \<Rightarrow> 'w event \<Rightarrow> error option"

text \<open>
  The receiving side of a stream: the messages the client sends, each with the result
  of \<^verbatim>\<open>protojson.Marshal\<close> and \<^verbatim>\<open>json.Unmarshal\<close> on it (\<open>Inl\<close> the error
  of either), and the error \<^verbatim>\<open>RecvMsg\<close> returns from then on (\<^verbatim>\<open>io.EOF\<close> when
  the client has closed its side).
\<close>

record incoming =
  msgs :: "(error + Message) list"
  final :: error

definition RecvMsg :: "incoming \<Rightarrow> (error + (error + Message)) \<times> incoming" where
  "RecvMsg inc =
     (case msgs inc of
        [] \<Rightarrow> (Inl (final inc), inc)
      | x # xs \<Rightarrow> (Inr x, inc\<lparr>msgs := xs\<rparr>))"

text \<open>How a handler ends: the unary reply, \<^verbatim>\<open>return nil\<close>, an error, or a panic.\<close>

datatype 'w result = Reply 'w | Done | Error error | Panic

text \<open>
  \<^verbatim>\<open>r := newRequest(md, m); h, ok := metadata.FromIncomingContext(ctx);
  if ok { r.Headers = h }\<close>
\<close>

definition request :: "'w env \<Rightarrow> Message \<Rightarrow> Request" where
  "request env m =
     (let r = newRequest (FullName env) m
      in case IncomingMD env of None \<Rightarrow> r | Some h \<Rightarrow> r\<lparr>ReqHeaders := h\<rparr>)"

text \<open>\<^verbatim>\<open>s.requests = append(s.requests, r)\<close>\<close>

definition record_request :: "Server \<Rightarrow> Request \<Rightarrow> Server" where
  "record_request s r = s\<lparr>requests := requests s @ [r]\<rparr>"

text \<open>\<^verbatim>\<open>m.requests = append(m.requests, r)\<close>\<close>

definition capture :: "matcher \<Rightarrow> Request \<Rightarrow> matcher" where
  "capture m r = m\<lparr>mrequests := mrequests m @ [r]\<rparr>"

text \<open>
  The inner loop of every handler:
  \<^verbatim>\<open>match := true; for _, fn := range m.matchFuncs { if !fn(r) { match = false } }\<close>
\<close>

definition matched :: "matcher \<Rightarrow> Request \<Rightarrow> bool" where
  "matched m r = foldl (\<lambda>match fn. if \<not> fn r then False else match) True (matchFuncs m)"

text \<open>The specification's \<open>evaluate\<close>: every predicate of the matcher returns true.\<close>

definition evaluate :: "matcher \<Rightarrow> Request \<Rightarrow> bool" where
  "evaluate m r = list_all (\<lambda>fn. fn r) (matchFuncs m)"

text \<open>One operation of the runtime: refused with an error, or added to the trace.\<close>

definition emit :: "'w env \<Rightarrow> 'w event list \<Rightarrow> 'w event \<Rightarrow> error option \<times> 'w event list" where
  "emit env tr e =
     (case Refuses env tr e of
        Some err \<Rightarrow> (Some err, tr)
      | None \<Rightarrow> (None, tr @ [e]))"

text \<open>
  \<^verbatim>\<open>for k, v := range md { for _, vv := range v { ... } }\<close> visits these pairs.
\<close>

definition entries :: "MD \<Rightarrow> (string \<times> string) list" where
  "entries md = concat (map (\<lambda>(k, v). map (Pair k) v) md)"

text \<open>
  The header and trailer loops whose operation can fail
  (\<^verbatim>\<open>if err := op(metadata.Pairs(k, vv)); err != nil { return err }\<close>).
\<close>

fun emitEach ::
  "'w env \<Rightarrow> (MD \<Rightarrow> 'w event) \<Rightarrow> (string \<times> string) list \<Rightarrow> 'w event list
     \<Rightarrow> error option \<times> 'w event list" where
  "emitEach env op [] tr = (None, tr)"
| "emitEach env op ((k, vv) # kvs) tr =
     (case emit env tr (op (Pairs k vv)) of
        (Some err, tr') \<Rightarrow> (Some err, tr')
      | (None, tr') \<Rightarrow> emitEach env op kvs tr')"

text \<open>\<^verbatim>\<open>stream.SetTrailer(metadata.Pairs(k, vv))\<close> returns nothing.\<close>

definition setTrailers :: "MD \<Rightarrow> 'w event list \<Rightarrow> 'w event list" where
  "setTrailers md tr = tr @ map (\<lambda>(k, vv). StreamSetTrailer (Pairs k vv)) (entries md)"

text \<open>
  \<^verbatim>\<open>for _, resm := range res.Messages { encode; stream.SendMsg(mes) }\<close>, returning
  at the first error.
\<close>

fun sendEach :: "'w env \<Rightarrow> Message list \<Rightarrow> 'w event list \<Rightarrow> error option \<times> 'w event list" where
  "sendEach env [] tr = (None, tr)"
| "sendEach env (resm # rest) tr =
     (case Encode env resm of
        Inl err \<Rightarrow> (Some err, tr)
      | Inr mes \<Rightarrow>
          (case emit env tr (SendMsg mes) of
             (Some err, tr') \<Rightarrow> (Some err, tr')
           | (None, tr') \<Rightarrow> sendEach env rest tr'))"

text \<open>
  The single reply of the unary and client-streaming shapes:
  \<^verbatim>\<open>mes = dynamicpb.NewMessage(md.Output()); if len(res.Messages) > 0 { ... }\<close>
\<close>

definition firstMessage :: "'w env \<Rightarrow> Response \<Rightarrow> error + 'w" where
  "firstMessage env res =
     (case Messages res of
        [] \<Rightarrow> Inr (NewOutput env)
      | m # _ \<Rightarrow> Encode env m)"

subsection \<open>Unary\<close>

text \<open>The body of \<^verbatim>\<open>if match { ... }\<close> after the handler has run.\<close>

definition unaryRespond :: "'w env \<Rightarrow> Response \<Rightarrow> 'w result \<times> 'w event list" where
  "unaryRespond env res =
     (case emitEach env SetHeader (entries (Headers res)) [] of
        (Some err, tr) \<Rightarrow> (Error err, tr)
      | (None, tr) \<Rightarrow>
     (case emitEach env SetTrailer (entries (Trailers res)) tr of
        (Some err, tr) \<Rightarrow> (Error err, tr)
      | (None, tr) \<Rightarrow>
     (case Status_Err (Status res) of
        Some err \<Rightarrow> (Error err, tr)
      | None \<Rightarrow>
     (case firstMessage env res of
        Inl err \<Rightarrow> (Error err, tr)
      | Inr mes \<Rightarrow> (Reply mes, tr)))))"

text \<open>
  \<^verbatim>\<open>for _, m := range s.matchers\<close>: the result, the matchers as the loop leaves
  them, and the trace. The loop returns inside the first matcher that matches.
\<close>

fun unaryScan ::
  "'w env \<Rightarrow> Request \<Rightarrow> matcher list \<Rightarrow> 'w result \<times> matcher list \<times> 'w event list" where
  "unaryScan env r [] = (Error notFound, [], [])"
| "unaryScan env r (m # ms) =
     (if matched m r then
        (case handler m of
           None \<Rightarrow> (Panic, capture m r # ms, [])
         | Some h \<Rightarrow>
             (case unaryRespond env (h r) of (res, tr) \<Rightarrow> (res, capture m r # ms, tr)))
      else
        (case unaryScan env r ms of (res, ms', tr) \<Rightarrow> (res, m # ms', tr)))"

text \<open>
  \<open>dec\<close> is the outcome of \<^verbatim>\<open>dec(in)\<close>, \<^verbatim>\<open>protojson.Marshal\<close> and
  \<^verbatim>\<open>json.Unmarshal\<close>: the document, or the error of the first that failed.
\<close>

definition createUnaryHandler ::
  "'w env \<Rightarrow> Server \<Rightarrow> error + Message \<Rightarrow> 'w result \<times> Server \<times> 'w event list" where
  "createUnaryHandler env s dec =
     (case dec of
        Inl err \<Rightarrow> (Error err, s, [])
      | Inr m \<Rightarrow>
          (let r = request env m;
               s1 = record_request s r
           in case unaryScan env r (matchers s1) of
                (res, ms', tr) \<Rightarrow> (res, s1\<lparr>matchers := ms'\<rparr>, tr)))"

subsection \<open>Server streaming\<close>

text \<open>The loop goes on after a matcher has answered; it returns only on an error.\<close>

fun serverScan ::
  "'w env \<Rightarrow> Request \<Rightarrow> matcher list \<Rightarrow> 'w event list
     \<Rightarrow> 'w result \<times> matcher list \<times> 'w event list" where
  "serverScan env r [] tr = (Done, [], tr)"
| "serverScan env r (m # ms) tr =
     (if matched m r then
        (case handler m of
           None \<Rightarrow> (Panic, capture m r # ms, tr)
         | Some h \<Rightarrow>
        (let res = h r
         in case emitEach env SendHeader (entries (Headers res)) tr of
              (Some err, tr1) \<Rightarrow> (Error err, capture m r # ms, tr1)
            | (None, tr1) \<Rightarrow>
           (let tr2 = setTrailers (Trailers res) tr1
            in case Status_Err (Status res) of
                 Some err \<Rightarrow> (Error err, capture m r # ms, tr2)
               | None \<Rightarrow>
              (case sendEach env (Messages res) tr2 of
                 (Some err, tr3) \<Rightarrow> (Error err, capture m r # ms, tr3)
               | (None, tr3) \<Rightarrow>
                   (case serverScan env r ms tr3 of
                      (out, ms', tr4) \<Rightarrow> (out, capture m r # ms', tr4))))))
      else
        (case serverScan env r ms tr of (out, ms', tr') \<Rightarrow> (out, m # ms', tr')))"

definition createServerStreamingHandler ::
  "'w env \<Rightarrow> Server \<Rightarrow> incoming \<Rightarrow> 'w result \<times> Server \<times> 'w event list" where
  "createServerStreamingHandler env s inc =
     (case RecvMsg inc of
        (Inl err, inc') \<Rightarrow> (Error err, s, [])
      | (Inr x, inc') \<Rightarrow>
          (case x of
             Inl err \<Rightarrow> (Error err, s, [Received x])
           | Inr m \<Rightarrow>
               (let r = request env m;
                    s1 = record_request s r
                in case serverScan env r (matchers s1) [Received x] of
                     (out, ms', tr) \<Rightarrow> (out, s1\<lparr>matchers := ms'\<rparr>, tr))))"

subsection \<open>Client streaming\<close>

text \<open>
  The body of \<^verbatim>\<open>if match { ... }\<close>: the status is looked at first, then the
  reply is encoded, then headers and trailers go out, and
  \<^verbatim>\<open>return stream.SendMsg(mes)\<close> ends the call.
\<close>

definition clientRespond ::
  "'w env \<Rightarrow> Response \<Rightarrow> 'w event list \<Rightarrow> 'w result \<times> 'w event list" where
  "clientRespond env res tr =
     (case Status_Err (Status res) of
        Some err \<Rightarrow> (Error err, tr)
      | None \<Rightarrow>
     (case firstMessage env res of
        Inl err \<Rightarrow> (Error err, tr)
      | Inr mes \<Rightarrow>
     (case emitEach env SendHeader (entries (Headers res)) tr of
        (Some err, tr1) \<Rightarrow> (Error err, tr1)
      | (None, tr1) \<Rightarrow>
     (case emit env (setTrailers (Trailers res) tr1) (SendMsg mes) of
        (Some err, tr3) \<Rightarrow> (Error err, tr3)
      | (None, tr3) \<Rightarrow> (Done, tr3)))))"

text \<open>
  The inner loop over the matchers for one buffered request: \<open>None\<close> when no
  matcher matched (the outer loop goes to the next request).
\<close>

fun clientScanMatchers ::
  "'w env \<Rightarrow> Request \<Rightarrow> matcher list \<Rightarrow> 'w event list
     \<Rightarrow> ('w result \<times> matcher list \<times> 'w event list) option" where
  "clientScanMatchers env r [] tr = None"
| "clientScanMatchers env r (m # ms) tr =
     (if matched m r then
        (case handler m of
           None \<Rightarrow> Some (Panic, capture m r # ms, tr)
         | Some h \<Rightarrow>
             (case clientRespond env (h r) tr of
                (out, tr') \<Rightarrow> Some (out, capture m r # ms, tr')))
      else
        (case clientScanMatchers env r ms tr of
           None \<Rightarrow> None
         | Some (out, ms', tr') \<Rightarrow> Some (out, m # ms', tr')))"

text \<open>\<^verbatim>\<open>for _, r := range rs\<close>, then not-found.\<close>

fun clientScan ::
  "'w env \<Rightarrow> Request list \<Rightarrow> matcher list \<Rightarrow> 'w event list
     \<Rightarrow> 'w result \<times> matcher list \<times> 'w event list" where
  "clientScan env [] ms tr = (Error notFound, ms, tr)"
| "clientScan env (r # rs) ms tr =
     (case clientScanMatchers env r ms tr of
        Some out \<Rightarrow> out
      | None \<Rightarrow> clientScan env rs ms tr)"

text \<open>
  The receive loop \<^verbatim>\<open>for { err := stream.RecvMsg(in); ... }\<close>. An error other
  than \<^verbatim>\<open>io.EOF\<close> enters neither \<^verbatim>\<open>if\<close>, and the loop calls
  \<^verbatim>\<open>RecvMsg\<close> again: the call may never return, which is the value \<open>None\<close>.
\<close>

partial_function (option) clientRecv ::
  "'w env \<Rightarrow> Server \<Rightarrow> Request list \<Rightarrow> 'w event list \<Rightarrow> incoming
     \<Rightarrow> ('w result \<times> Server \<times> 'w event list) option" where
  "clientRecv env s rs tr inc =
     (case RecvMsg inc of
        (Inr x, inc') \<Rightarrow>
          (case x of
             Inl err \<Rightarrow> Some (Error err, s, tr @ [Received x])
           | Inr m \<Rightarrow>
               clientRecv env (record_request s (request env m)) (rs @ [request env m])
                 (tr @ [Received x]) inc')
      | (Inl err, inc') \<Rightarrow>
          (if err = EOF then
             (case clientScan env rs (matchers s) tr of
                (out, ms', tr') \<Rightarrow> Some (out, s\<lparr>matchers := ms'\<rparr>, tr'))
           else clientRecv env s rs tr inc'))"

definition createClientStreamingHandler ::
  "'w env \<Rightarrow> Server \<Rightarrow> incoming \<Rightarrow> ('w result \<times> Server \<times> 'w event list) option" where
  "createClientStreamingHandler env s inc = clientRecv env s [] [] inc"

text \<open>
  The same loop, watched for \<open>n\<close> turns: the result if the call has returned by
  then (\<open>None\<close> while it is still in the loop), and the server and the trace as they
  are at that moment.
\<close>

fun clientTurns ::
  "nat \<Rightarrow> 'w env \<Rightarrow> Server \<Rightarrow> Request list \<Rightarrow> 'w event list \<Rightarrow> incoming
     \<Rightarrow> 'w result option \<times> Server \<times> 'w event list" where
  "clientTurns 0 env s rs tr inc = (None, s, tr)"
| "clientTurns (Suc n) env s rs tr inc =
     (case RecvMsg inc of
        (Inr x, inc') \<Rightarrow>
          (case x of
             Inl err \<Rightarrow> (Some (Error err), s, tr @ [Received x])
           | Inr m \<Rightarrow>
               clientTurns n env (record_request s (request env m)) (rs @ [request env m])
                 (tr @ [Received x]) inc')
      | (Inl err, inc') \<Rightarrow>
          (if err = EOF then
             (case clientScan env rs (matchers s) tr of
                (out, ms', tr') \<Rightarrow> (Some out, s\<lparr>matchers := ms'\<rparr>, tr'))
           else clientTurns n env s rs tr inc'))"

subsection \<open>Bidirectional streaming\<close>

text \<open>What the matcher loop does to the receive loop: \<^verbatim>\<open>continue L\<close> or return.\<close>

datatype 'w control = Continue | Return "'w result"

text \<open>
  The body of \<^verbatim>\<open>if match { ... }\<close>; the flag is \<^verbatim>\<open>headerSent\<close>, set once a
  header has gone out.
\<close>

definition biRespond ::
  "'w env \<Rightarrow> Response \<Rightarrow> bool \<Rightarrow> 'w event list \<Rightarrow> 'w control \<times> bool \<times> 'w event list" where
  "biRespond env res headerSent tr =
     (case (if \<not> headerSent then emitEach env SendHeader (entries (Headers res)) tr
            else (None, tr)) of
        (Some err, tr1) \<Rightarrow> (Return (Error err), headerSent, tr1)
      | (None, tr1) \<Rightarrow>
     (let headerSent' = (headerSent \<or> entries (Headers res) \<noteq> []);
          tr2 = setTrailers (Trailers res) tr1
      in case Status_Err (Status res) of
           Some err \<Rightarrow> (Return (Error err), headerSent', tr2)
         | None \<Rightarrow>
        (case sendEach env (Messages res) tr2 of
           (Some err, tr3) \<Rightarrow> (Return (Error err), headerSent', tr3)
         | (None, tr3) \<Rightarrow> (Continue, headerSent', tr3))))"

text \<open>
  \<^verbatim>\<open>for _, m := range s.matchers\<close> inside the receive loop: the first matcher
  that matches answers and the loop is left with \<^verbatim>\<open>continue L\<close>; after the loop
  comes \<^verbatim>\<open>return status.Error(codes.NotFound, ...)\<close>.
\<close>

fun biScan ::
  "'w env \<Rightarrow> Request \<Rightarrow> matcher list \<Rightarrow> bool \<Rightarrow> 'w event list
     \<Rightarrow> 'w control \<times> matcher list \<times> bool \<times> 'w event list" where
  "biScan env r [] headerSent tr = (Return (Error notFound), [], headerSent, tr)"
| "biScan env r (m # ms) headerSent tr =
     (if matched m r then
        (case handler m of
           None \<Rightarrow> (Return Panic, capture m r # ms, headerSent, tr)
         | Some h \<Rightarrow>
             (case biRespond env (h r) headerSent tr of
                (c, headerSent', tr') \<Rightarrow> (c, capture m r # ms, headerSent', tr')))
      else
        (case biScan env r ms headerSent tr of
           (c, ms', headerSent', tr') \<Rightarrow> (c, m # ms', headerSent', tr')))"

partial_function (option) biRecv ::
  "'w env \<Rightarrow> Server \<Rightarrow> bool \<Rightarrow> 'w event list \<Rightarrow> incoming
     \<Rightarrow> ('w result \<times> Server \<times> 'w event list) option" where
  "biRecv env s headerSent tr inc =
     (case RecvMsg inc of
        (Inl err, inc') \<Rightarrow>
          (if err = EOF then Some (Done, s, tr) else Some (Error err, s, tr))
      | (Inr x, inc') \<Rightarrow>
          (case x of
             Inl err \<Rightarrow> Some (Error err, s, tr @ [Received x])
           | Inr m \<Rightarrow>
               (case biScan env (request env m)
                       (matchers (record_request s (request env m))) headerSent
                       (tr @ [Received x]) of
                  (Continue, ms', headerSent', tr') \<Rightarrow>
                    biRecv env (record_request s (request env m)\<lparr>matchers := ms'\<rparr>)
                      headerSent' tr' inc'
                | (Return out, ms', headerSent', tr') \<Rightarrow>
                    Some (out, record_request s (request env m)\<lparr>matchers := ms'\<rparr>, tr'))))"

definition createBiStreamingHandler ::
  "'w env \<Rightarrow> Server \<Rightarrow> incoming \<Rightarrow> ('w result \<times> Server \<times> 'w event list) option" where
  "createBiStreamingHandler env s inc = biRecv env s False [] inc"

section \<open>The lifecycle of the server\<close>

text \<open>
  The \<^verbatim>\<open>Server\<close> that \<^verbatim>\<open>NewServer\<close> builds before it calls
  \<^verbatim>\<open>startServer\<close> (without TLS): every field but \<^verbatim>\<open>healthCheck\<close> and
  \<^verbatim>\<open>server\<close> has its zero value.
\<close>

definition newServer :: "bool \<Rightarrow> Server" where
  "newServer hc =
     \<lparr>matchers = [], listener = None, server = Created, tlsc = None, cacert = None,
      cc = None, requests = [], healthCheck = hc, status = status_unknown, t = []\<rparr>"

text \<open>
  \<^verbatim>\<open>startServer\<close>; \<open>lis\<close> is what \<^verbatim>\<open>net.Listen("tcp", "127.0.0.1:0")\<close>
  returns, the listener being known by its address. The deferred assignment sets the
  status to \<^verbatim>\<open>status_start\<close> on both paths.
\<close>

definition startServer :: "error + string \<Rightarrow> Server \<Rightarrow> Server" where
  "startServer lis s =
     (let s1 = s\<lparr>status := status_starting\<rparr>
      in case lis of
           Inl err \<Rightarrow> s1\<lparr>t := t s1 @ [ErrorValue err], status := status_start\<rparr>
         | Inr l \<Rightarrow> s1\<lparr>listener := Some l, server := Serving, status := status_start\<rparr>)"

definition notStarted :: report where
  "notStarted = ErrorString ''server is not started yet''"

text \<open>
  \<^verbatim>\<open>Close\<close>; \<open>drained\<close> tells whether \<^verbatim>\<open>GracefulStop\<close> finished before the
  timer of five seconds, after which \<^verbatim>\<open>s.server.Stop()\<close> is called.
\<close>

definition Close :: "bool \<Rightarrow> Server \<Rightarrow> Server" where
  "Close drained s =
     (let s1 = s\<lparr>status := status_closing\<rparr>
      in if listener s1 = None then s1\<lparr>t := t s1 @ [notStarted], status := status_closed\<rparr>
         else s1\<lparr>cc := None,
                 server := (if drained then GracefullyStopped else Stopped),
                 status := status_closed\<rparr>)"

definition Addr :: "Server \<Rightarrow> string \<times> Server" where
  "Addr s =
     (case listener s of
        None \<Rightarrow> ([], s\<lparr>t := t s @ [notStarted]\<rparr>)
      | Some l \<Rightarrow> (l, s))"

text \<open>
  How a method of \<^verbatim>\<open>Server\<close> ends: it returns, or \<^verbatim>\<open>t.Fatal\<close> stops the
  calling goroutine.
\<close>

datatype 'a ret = Returns 'a | Goexit

text \<open>
  \<^verbatim>\<open>grpc.Dial(s.listener.Addr().String(), grpc.WithTransportCredentials(creds))\<close>
  and what follows it; \<open>dial\<close> gives the error of \<^verbatim>\<open>grpc.Dial\<close>, if any.
\<close>

definition dialConn ::
  "(string \<Rightarrow> TransportCredentials \<Rightarrow> error option) \<Rightarrow> string \<Rightarrow> TransportCredentials
     \<Rightarrow> Server \<Rightarrow> ClientConn option ret \<times> Server" where
  "dialConn dial l creds s =
     (case dial l creds of
        Some err \<Rightarrow> (Returns None, s\<lparr>t := t s @ [ErrorValue err]\<rparr>)
      | None \<Rightarrow> (Returns (Some (ClientConn l creds)), s\<lparr>cc := Some (ClientConn l creds)\<rparr>))"

text \<open>
  \<^verbatim>\<open>Conn\<close>; \<open>appendCerts\<close> is \<^verbatim>\<open>pool.AppendCertsFromPEM\<close> on a new pool, and
  the pool stored in \<^verbatim>\<open>RootCAs\<close> is known by the PEM text it was filled from.
\<close>

definition Conn ::
  "(string \<Rightarrow> bool) \<Rightarrow> (string \<Rightarrow> TransportCredentials \<Rightarrow> error option) \<Rightarrow> Server
     \<Rightarrow> ClientConn option ret \<times> Server" where
  "Conn appendCerts dial s =
     (case listener s of
        None \<Rightarrow> (Returns None, s\<lparr>t := t s @ [notStarted]\<rparr>)
      | Some l \<Rightarrow>
          (case tlsc s of
             None \<Rightarrow> dialConn dial l insecure_NewCredentials s
           | Some c \<Rightarrow>
               (case cacert s of
                  None \<Rightarrow>
                    (let c' = c\<lparr>InsecureSkipVerify := True\<rparr>
                     in dialConn dial l (credentials_NewTLS c') (s\<lparr>tlsc := Some c'\<rparr>))
                | Some pem \<Rightarrow>
                    (if \<not> appendCerts pem then
                       (Goexit, s\<lparr>t := t s @ [ErrorValue (Failure ''failed to append ca certs'')]\<rparr>)
                     else
                       (let c' = c\<lparr>RootCAs := Some pem\<rparr>
                        in dialConn dial l (credentials_NewTLS c') (s\<lparr>tlsc := Some c'\<rparr>))))))"

text \<open>A usage error was reported between two states of the server.\<close>

definition reportsNotStarted :: "Server \<Rightarrow> Server \<Rightarrow> bool" where
  "reportsNotStarted s s' = (t s' = t s @ [notStarted])"

section \<open>Notions for stating the claims\<close>

subsection \<open>Traces\<close>

text \<open>
  The messages a call took from its stream, in receipt order; the documents among them;
  the requests built from these documents; and the replies that went out with
  \<^verbatim>\<open>SendMsg\<close>.
\<close>

fun received :: "'w event list \<Rightarrow> (error + Message) list" where
  "received [] = []"
| "received (Received x # tr) = x # received tr"
| "received (e # tr) = received tr"

fun decoded :: "(error + Message) list \<Rightarrow> Message list" where
  "decoded [] = []"
| "decoded (Inr m # xs) = m # decoded xs"
| "decoded (Inl e # xs) = decoded xs"

definition docs :: "'w env \<Rightarrow> 'w event list \<Rightarrow> Request list" where
  "docs env tr = map (request env) (decoded (received tr))"

fun sent :: "'w event list \<Rightarrow> 'w list" where
  "sent [] = []"
| "sent (SendMsg w # tr) = w # sent tr"
| "sent (e # tr) = sent tr"

text \<open>
  A runtime that accepts every operation, and a codec that encodes every document
  (to \<open>enc m\<close>).
\<close>

definition accepting :: "'w env \<Rightarrow> bool" where
  "accepting env = (\<forall>tr e. Refuses env tr e = None)"


subsection \<open>The operations of an answer\<close>







subsection \<open>Which matcher passes first\<close>

text \<open>
  The least position of a matcher that passes on \<open>r\<close>: the matcher at \<open>i\<close> passes
  and none before it does.
\<close>

definition firstMatch :: "matcher list \<Rightarrow> Request \<Rightarrow> nat \<Rightarrow> bool" where
  "firstMatch ms r i =
     (i < length ms \<and> evaluate (ms ! i) r \<and> list_all (\<lambda>m. \<not> evaluate m r) (take i ms))"

text \<open>No matcher of \<open>ms\<close> passes on \<open>r\<close>.\<close>

definition noMatch :: "matcher list \<Rightarrow> Request \<Rightarrow> bool" where
  "noMatch ms r = list_all (\<lambda>m. \<not> evaluate m r) ms"

text \<open>
  The first pair of a buffered request and a matcher that passes on it, requests in
  receipt order and, for each request, matchers in registration order: the request at
  \<open>k\<close> is the first on which any matcher passes, and the matcher at \<open>i\<close> is the
  first that passes on it.
\<close>

definition firstPair :: "matcher list \<Rightarrow> Request list \<Rightarrow> nat \<Rightarrow> nat \<Rightarrow> bool" where
  "firstPair ms rs k i =
     (k < length rs \<and> firstMatch ms (rs ! k) i \<and> list_all (noMatch ms) (take k rs))"

subsection \<open>The matchers that pass, and their Responses\<close>






subsection \<open>Capture logs\<close>

text \<open>
  How a call may change a matcher, given the requests \<open>rs\<close> it received in receipt
  order: predicates and handler stay, and the capture log grows at its end by some of
  \<open>rs\<close>, in the order of \<open>rs\<close>, each of which passes every predicate of the matcher.
\<close>

definition captures :: "Request list \<Rightarrow> matcher \<Rightarrow> matcher \<Rightarrow> bool" where
  "captures rs m m' =
     (matchFuncs m' = matchFuncs m \<and> handler m' = handler m \<and>
      (\<exists>added. mrequests m' = mrequests m @ added \<and> subseq added rs \<and>
         list_all (evaluate m) added))"

text \<open>Every request in the capture log of every matcher passes the matcher's predicates.\<close>

definition passingLogs :: "matcher list \<Rightarrow> bool" where
  "passingLogs ms = list_all (\<lambda>m. list_all (evaluate m) (mrequests m)) ms"

section \<open>Values for the examples\<close>

text \<open>A matcher as \<^verbatim>\<open>ts.Method("Ping")\<close> registers it.\<close>

definition m0 :: matcher where
  "m0 = \<lparr>matchFuncs = [methodMatchFunc ''Ping''], handler = None, mrequests = []\<rparr>"

text \<open>
  A server that was started on an address and then closed, and a server whose
  \<^verbatim>\<open>net.Listen\<close> failed.
\<close>

definition closedServer :: Server where
  "closedServer = Close True (startServer (Inr ''127.0.0.1:50051'') (newServer False))"

definition unstartedServer :: Server where
  "unstartedServer =
     startServer (Inl (Failure ''listen tcp 127.0.0.1:0: bind failed'')) (newServer False)"

text \<open>
  A method \<^verbatim>\<open>pkg.Svc.Ping\<close> on a runtime that accepts every operation, with a codec
  that encodes every document as itself; the request a call of it with the empty
  document makes; and a server with two matchers that both pass on it, each queuing
  one message.
\<close>

definition env0 :: "Message env" where
  "env0 = \<lparr>FullName = ''pkg.Svc.Ping'', NewOutput = [], Encode = Inr, IncomingMD = None,
            Refuses = (\<lambda>tr e. None)\<rparr>"

definition ping :: Request where
  "ping = \<lparr>Service = ''pkg.Svc'', Method = ''Ping'', ReqHeaders = [], Message = []\<rparr>"

definition pingMatcher :: matcher where
  "pingMatcher = matcher_Response m0 [(''ok'', JBool True)]"

definition svcMatcher :: matcher where
  "svcMatcher =
     matcher_Response \<lparr>matchFuncs = [serviceMatchFunc ''pkg.Svc''], handler = None, mrequests = []\<rparr>
       [(''ok'', JBool False)]"

definition twoServer :: Server where
  "twoServer = (newServer False)\<lparr>matchers := [pingMatcher, svcMatcher]\<rparr>"

text \<open>
  A matcher with a header, a queued message and the error status
  \<^verbatim>\<open>status.New(codes.Internal, "boom")\<close>.
\<close>

definition failingMatcher :: matcher where
  "failingMatcher =
     matcher_Status
       (matcher_Response (matcher_Header m0 ''k'' ''v'') [(''ok'', JBool True)])
       (NewStatus Internal ''boom'')"

text \<open>A stream on which the client sends the empty document and closes its side.\<close>

definition oneMessage :: incoming where
  "oneMessage = \<lparr>msgs = [Inr []], final = EOF\<rparr>"

text \<open>
  A matcher that passes on the documents with \<^verbatim>\<open>n = 2\<close> and answers
  \<^verbatim>\<open>{"ok": true}\<close>, a server with that matcher, a stream of three documents of which
  the second has \<^verbatim>\<open>n = 2\<close>, and a stream with a document that passes followed by one
  that does not.
\<close>

definition secondMatcher :: matcher where
  "secondMatcher =
     matcher_Response
       \<lparr>matchFuncs = [\<lambda>r. map_of (Message r) ''n'' = Some (JNumber 2)], handler = None,
        mrequests = []\<rparr>
       [(''ok'', JBool True)]"

definition secondServer :: Server where
  "secondServer = (newServer False)\<lparr>matchers := [secondMatcher]\<rparr>"

definition threeMessages :: incoming where
  "threeMessages =
     \<lparr>msgs = [Inr [(''n'', JNumber 1)], Inr [(''n'', JNumber 2)], Inr [(''n'', JNumber 3)]],
      final = EOF\<rparr>"

definition twoMessages :: incoming where
  "twoMessages = \<lparr>msgs = [Inr [(''n'', JNumber 2)], Inr [(''n'', JNumber 1)]], final = EOF\<rparr>"



text \<open>
  A stream on which the client sends one document and then cancels the call: from
  then on \<^verbatim>\<open>RecvMsg\<close> returns the error of the status \<^verbatim>\<open>Canceled\<close>.
\<close>

definition canceledStream :: incoming where
  "canceledStream =
     \<lparr>msgs = [Inr [(''n'', JNumber 1)]],
      final = StatusError (NewStatus Canceled ''context canceled'')\<rparr>"

section \<open>Facts about Split and Join\<close>

lemma Split_not_Nil: "Split s c \<noteq> []"
  by (induction s) auto

lemma Split_no_sep: "c \<notin> set s \<Longrightarrow> Split s c = [s]"
  by (induction s) auto

lemma Split_append_sep: "Split (p @ c # q) c = Split p c @ Split q c"
proof (induction p)
  case Nil
  show ?case by simp
next
  case (Cons x p)
  have ne: "Split p c \<noteq> []" by (rule Split_not_Nil)
  show ?case
  proof (cases "x = c")
    case True
    with Cons show ?thesis by simp
  next
    case False
    with Cons ne show ?thesis by simp
  qed
qed

lemma Join_Cons_Cons: "ys \<noteq> [] \<Longrightarrow> Join ((x # hd ys) # tl ys) c = x # Join ys c"
proof (cases ys)
  case Nil
  assume "ys \<noteq> []"
  with Nil show ?thesis by simp
next
  case (Cons y zs)
  then show ?thesis by (cases zs) auto
qed

lemma Join_Nil_Cons: "ys \<noteq> [] \<Longrightarrow> Join ([] # ys) c = c # Join ys c"
  by (cases ys) auto

lemma Join_Split: "Join (Split s c) c = s"
proof (induction s)
  case Nil
  show ?case by simp
next
  case (Cons x s)
  have ne: "Split s c \<noteq> []" by (rule Split_not_Nil)
  show ?case
  proof (cases "x = c")
    case True
    with Cons ne show ?thesis by (simp add: Join_Nil_Cons)
  next
    case False
    with Cons ne show ?thesis by (simp add: Join_Cons_Cons)
  qed
qed

lemma Split_last_piece:
  assumes "c \<notin> set q"
  shows "butlast (Split (p @ c # q) c) = Split p c" and "last (Split (p @ c # q) c) = q"
  using assms by (simp_all add: Split_append_sep Split_no_sep)

section \<open>The predicate loop\<close>

lemma matched_foldl_False:
  "foldl (\<lambda>match fn. if \<not> fn r then False else match) False fs = False"
  by (induction fs) auto

lemma matched_eq_evaluate: "matched m r = evaluate m r"
proof -
  have "foldl (\<lambda>match fn. if \<not> fn r then False else match) True fs = list_all (\<lambda>fn. fn r) fs" for fs
    by (induction fs) (auto simp: matched_foldl_False)
  then show ?thesis by (simp add: matched_def evaluate_def)
qed

section \<open>Matchers built by Method\<close>

lemma methodMatchFunc_plain:
  "\<not> Contains name (CHR ''/'') \<Longrightarrow> methodMatchFunc name r = (Method r = name)"
  by (simp add: methodMatchFunc_def)

lemma methodMatchFunc_qualified:
  assumes q: "\<not> Contains q (CHR ''/'')"
  shows "methodMatchFunc (p @ ''/'' @ q) r = (Service r = TrimPrefix p ''/'' \<and> Method r = q)"
proof -
  let ?c = "CHR ''/''"
  have nq: "?c \<notin> set q" using q by (simp add: Contains_def)
  have has: "Contains (p @ ''/'' @ q) ?c" by (simp add: Contains_def)
  show ?thesis
  proof (cases p)
    case Nil
    then have "TrimPrefix (p @ ''/'' @ q) ''/'' = q" by (simp add: TrimPrefix_def)
    with has nq Nil show ?thesis
      by (simp add: methodMatchFunc_def Split_no_sep TrimPrefix_def)
  next
    case (Cons x p')
    show ?thesis
    proof (cases "x = ?c")
      case True
      with Cons have tp: "TrimPrefix (p @ ''/'' @ q) ''/'' = p' @ ?c # q" "TrimPrefix p ''/'' = p'"
        by (simp_all add: TrimPrefix_def)
      from has show ?thesis
        unfolding methodMatchFunc_def tp Let_def
        by (simp add: Split_last_piece[OF nq] Join_Split)
    next
      case False
      with Cons have tp: "TrimPrefix (p @ ''/'' @ q) ''/'' = p @ ?c # q" "TrimPrefix p ''/'' = p"
        by (simp_all add: TrimPrefix_def)
      from has show ?thesis
        unfolding methodMatchFunc_def tp Let_def
        by (simp add: Split_last_piece[OF nq] Join_Split)
    qed
  qed
qed

text \<open>
  Claim C10. The matcher that \<^verbatim>\<open>Method(name)\<close> registers has the single predicate
  \<open>methodMatchFunc name\<close>. When \<open>name\<close> has no \<^verbatim>\<open>/\<close>, the matcher matches
  a request exactly when the request's \<open>Method\<close> is \<open>name\<close>, whatever its
  \<open>Service\<close>. When \<open>name\<close> is \<open>p/q\<close> with no \<^verbatim>\<open>/\<close> in \<open>q\<close> (so \<open>q\<close> is the
  part after the last \<^verbatim>\<open>/\<close>), it matches exactly when the \<open>Service\<close> is \<open>p\<close>
  without a leading \<^verbatim>\<open>/\<close> and the \<open>Method\<close> is \<open>q\<close>.
\<close>

theorem Method_matcher_predicate:
  "let m = last (matchers (Server_Method s name))
   in matchFuncs m = [methodMatchFunc name] \<and>
      (\<not> Contains name (CHR ''/'') \<longrightarrow> (matched m r \<longleftrightarrow> Method r = name)) \<and>
      (name = p @ ''/'' @ q \<and> \<not> Contains q (CHR ''/'') \<longrightarrow>
         (matched m r \<longleftrightarrow> Service r = TrimPrefix p ''/'' \<and> Method r = q))"
  by (simp add: Server_Method_def matched_def methodMatchFunc_plain methodMatchFunc_qualified
      del: append.simps)

theorem Method_matcher_predicate_witness:
  "\<not> Contains ''GetFeature'' (CHR ''/'') \<and>
   matched (last (matchers (Server_Method (newServer False) ''GetFeature'')))
     \<lparr>Service = ''routeguide.RouteGuide'', Method = ''GetFeature'', ReqHeaders = [], Message = []\<rparr> \<and>
   matched (last (matchers (Server_Method (newServer False) ''/routeguide.RouteGuide/GetFeature'')))
     \<lparr>Service = ''routeguide.RouteGuide'', Method = ''GetFeature'', ReqHeaders = [], Message = []\<rparr> \<and>
   \<not> matched (last (matchers (Server_Method (newServer False) ''/routeguide.RouteGuide/GetFeature'')))
     \<lparr>Service = ''other.Service'', Method = ''GetFeature'', ReqHeaders = [], Message = []\<rparr>"
proof -
  let ?r = "\<lparr>Service = ''routeguide.RouteGuide'', Method = ''GetFeature'', ReqHeaders = [], Message = []\<rparr>"
  let ?r' = "\<lparr>Service = ''other.Service'', Method = ''GetFeature'', ReqHeaders = [], Message = []\<rparr>"
  let ?s = "newServer False"
  have c: "\<not> Contains ''GetFeature'' (CHR ''/'')" by (simp add: Contains_def)
  have n: "''/routeguide.RouteGuide/GetFeature'' = ''/routeguide.RouteGuide'' @ ''/'' @ ''GetFeature''"
    by simp
  have t: "TrimPrefix ''/routeguide.RouteGuide'' ''/'' = ''routeguide.RouteGuide''"
    by (simp add: TrimPrefix_def)
  note plain = Method_matcher_predicate[of ?s "''GetFeature''" ?r "[]" "[]", unfolded Let_def,
      THEN conjunct2, THEN conjunct1, THEN mp, OF c]
  note qual = Method_matcher_predicate[of ?s "''/routeguide.RouteGuide/GetFeature''" _
      "''/routeguide.RouteGuide''" "''GetFeature''", unfolded Let_def t,
      THEN conjunct2, THEN conjunct2, THEN mp, OF conjI, OF n c]
  have 1: "matched (last (matchers (Server_Method ?s ''GetFeature''))) ?r"
    by (subst plain) simp
  have 2: "matched (last (matchers (Server_Method ?s ''/routeguide.RouteGuide/GetFeature''))) ?r"
    by (subst qual) simp
  have 3: "\<not> matched (last (matchers (Server_Method ?s ''/routeguide.RouteGuide/GetFeature''))) ?r'"
    by (subst qual) simp
  show ?thesis by (intro conjI c 1 2 3)
qed

section \<open>Handler decorators compose in declaration order\<close>

lemma ToLower_a: "ToLower ''a'' = ''a''" "ToLower ''b'' = ''b''"
  by (simp_all add: ToLower_def lowerChar_def)

lemma map_of_MD_Append:
  "map_of (MD_Append md k v) k' =
     (if k' = ToLower k then Some ((case map_of md k' of None \<Rightarrow> [] | Some vs \<Rightarrow> vs) @ [v])
      else map_of md k')"
  by (simp add: MD_Append_def Let_def update_conv')

lemma invoke_Header:
  "invoke (matcher_Header m k v) r =
     Some ((previous m r)\<lparr>Headers := MD_Append (Headers (previous m r)) k v\<rparr>)"
  by (simp add: invoke_def matcher_Header_def Let_def)

lemma invoke_Response:
  "invoke (matcher_Response m x) r =
     Some ((previous m r)\<lparr>Messages := Messages (previous m r) @ [x]\<rparr>)"
  by (simp add: invoke_def matcher_Response_def Let_def)

lemma previous_invoke: "invoke m r = Some res \<Longrightarrow> previous m r = res"
  by (auto simp: invoke_def previous_def split: option.splits)

lemma previous_None: "handler m = None \<Longrightarrow> previous m r = NewResponse"
  by (simp add: previous_def)

text \<open>
  Claim C3. A matcher as \<^verbatim>\<open>Match\<close>, \<^verbatim>\<open>Service\<close> or \<^verbatim>\<open>Method\<close> of the server
  registers it has no handler, and adding predicates to it leaves it without one. On
  such a matcher, chaining \<^verbatim>\<open>Header("a","1")\<close>, then
  \<^verbatim>\<open>Response({"x":1})\<close>, then \<^verbatim>\<open>Header("b","2")\<close> installs a handler that,
  whenever it is invoked and on every request, gives the Response with exactly the
  headers \<open>a: [1], b: [2]\<close> and the messages \<open>[{x:1}]\<close>. The mutations apply
  in declaration order in general: on a matcher \<open>m\<close> that already has a handler
  they are applied, in that order, to the Response of that handler, so that the headers
  get \<open>a: 1\<close> and then \<open>b: 2\<close> appended and \<open>{x:1}\<close> is appended to the
  messages.
\<close>

theorem decorators_in_declaration_order:
  "let m' = matcher_Header
              (matcher_Response (matcher_Header m ''a'' ''1'') [(''x'', JNumber 1)]) ''b'' ''2'';
       base = previous m r
   in invoke m' r =
        Some (base\<lparr>Headers := MD_Append (MD_Append (Headers base) ''a'' ''1'') ''b'' ''2'',
                   Messages := Messages base @ [[(''x'', JNumber 1)]]\<rparr>) \<and>
      (\<exists>res vs ws. invoke m' r = Some res \<and>
         map_of (Headers res) ''a'' = Some (vs @ [''1'']) \<and>
         map_of (Headers res) ''b'' = Some (ws @ [''2''])) \<and>
      (handler m = None \<longrightarrow>
         invoke m' r =
           Some \<lparr>Headers = [(''a'', [''1'']), (''b'', [''2''])],
                 Messages = [[(''x'', JNumber 1)]], Trailers = [], Status = None\<rparr>) \<and>
      handler (last (matchers (Server_Match s fn))) = None \<and>
      handler (last (matchers (Server_Service s service))) = None \<and>
      handler (last (matchers (Server_Method s method))) = None \<and>
      handler (matcher_Match m fn) = handler m \<and>
      handler (matcher_Service m service) = handler m \<and>
      handler (matcher_Method m method) = handler m"
proof -
  let ?m1 = "matcher_Header m ''a'' ''1''"
  let ?m2 = "matcher_Response ?m1 [(''x'', JNumber 1)]"
  let ?m3 = "matcher_Header ?m2 ''b'' ''2''"
  let ?base = "previous m r"
  let ?res = "?base\<lparr>Headers := MD_Append (MD_Append (Headers ?base) ''a'' ''1'') ''b'' ''2'',
                   Messages := Messages ?base @ [[(''x'', JNumber 1)]]\<rparr>"
  have p1: "previous ?m1 r = ?base\<lparr>Headers := MD_Append (Headers ?base) ''a'' ''1''\<rparr>"
    by (rule previous_invoke) (rule invoke_Header)
  have p2: "previous ?m2 r = (previous ?m1 r)\<lparr>Messages := Messages (previous ?m1 r) @ [[(''x'', JNumber 1)]]\<rparr>"
    by (rule previous_invoke) (rule invoke_Response)
  have A: "invoke ?m3 r = Some ?res"
    by (simp add: invoke_Header p2 p1)
  have B: "map_of (Headers ?res) ''a'' =
             Some ((case map_of (Headers ?base) ''a'' of None \<Rightarrow> [] | Some vs \<Rightarrow> vs) @ [''1''])"
    by (simp add: map_of_MD_Append ToLower_a)
  have C: "map_of (Headers ?res) ''b'' =
             Some ((case map_of (MD_Append (Headers ?base) ''a'' ''1'') ''b'' of None \<Rightarrow> [] | Some vs \<Rightarrow> vs) @ [''2''])"
    by (simp add: map_of_MD_Append ToLower_a)
  have D: "handler m = None \<Longrightarrow>
      ?res = \<lparr>Headers = [(''a'', [''1'']), (''b'', [''2''])],
                 Messages = [[(''x'', JNumber 1)]], Trailers = [], Status = None\<rparr>"
    by (simp add: previous_None NewResponse_def MD_Append_def ToLower_a)
  show ?thesis unfolding Let_def
  proof (intro conjI impI)
    show "invoke ?m3 r = Some ?res" by (rule A)
    from A B C show "\<exists>res vs ws. invoke ?m3 r = Some res \<and>
         map_of (Headers res) ''a'' = Some (vs @ [''1'']) \<and>
         map_of (Headers res) ''b'' = Some (ws @ [''2''])"
      by (intro exI conjI)
    assume "handler m = None"
    from A D[OF this] show "invoke ?m3 r =
           Some \<lparr>Headers = [(''a'', [''1'']), (''b'', [''2''])],
                 Messages = [[(''x'', JNumber 1)]], Trailers = [], Status = None\<rparr>"
      by simp
  next
    show "handler (last (matchers (Server_Match s fn))) = None"
      and "handler (last (matchers (Server_Service s service))) = None"
      and "handler (last (matchers (Server_Method s method))) = None"
      by (simp_all add: Server_Match_def Server_Service_def Server_Method_def)
  next
    show "handler (matcher_Match m fn) = handler m"
      and "handler (matcher_Service m service) = handler m"
      and "handler (matcher_Method m method) = handler m"
      by (simp_all add: matcher_Match_def matcher_Service_def matcher_Method_def)
  qed
qed

theorem decorators_in_declaration_order_witness:
  "handler (last (matchers (Server_Method (newServer False) ''Ping''))) = None \<and>
   invoke (matcher_Header
              (matcher_Response
                 (matcher_Header (last (matchers (Server_Method (newServer False) ''Ping''))) ''a'' ''1'')
                 [(''x'', JNumber 1)]) ''b'' ''2'')
          \<lparr>Service = ''S'', Method = ''Ping'', ReqHeaders = [], Message = []\<rparr> =
           Some \<lparr>Headers = [(''a'', [''1'']), (''b'', [''2''])],
                 Messages = [[(''x'', JNumber 1)]], Trailers = [], Status = None\<rparr>"
proof -
  let ?m = "last (matchers (Server_Method (newServer False) ''Ping''))"
  let ?r = "\<lparr>Service = ''S'', Method = ''Ping'', ReqHeaders = [], Message = []\<rparr>"
  note th = decorators_in_declaration_order[of ?m ?r "newServer False" _ _ "''Ping''", unfolded Let_def]
  note h = th[THEN conjunct2, THEN conjunct2, THEN conjunct2, THEN conjunct2, THEN conjunct2,
      THEN conjunct1]
  from th[THEN conjunct2, THEN conjunct2, THEN conjunct1, THEN mp, OF h] h
  show ?thesis by (intro conjI)
qed

section \<open>Usage errors of the lifecycle operations\<close>

lemma t_dialConn:
  "t (snd (dialConn dial l creds s)) = t s \<or>
   (\<exists>err. t (snd (dialConn dial l creds s)) = t s @ [ErrorValue err])"
  by (simp add: dialConn_def split: option.splits)

lemma dialConn_not_usage:
  "t s' = t s \<Longrightarrow> \<not> reportsNotStarted s (snd (dialConn dial l creds s'))"
  using t_dialConn[of dial l creds s']
  by (auto simp: reportsNotStarted_def notStarted_def)

lemma Addr_usage: "reportsNotStarted s (snd (Addr s)) \<longleftrightarrow> listener s = None"
  by (simp add: Addr_def reportsNotStarted_def split: option.splits)

lemma Close_usage: "reportsNotStarted s (Close drained s) \<longleftrightarrow> listener s = None"
  by (simp add: Close_def reportsNotStarted_def Let_def)

lemma Conn_usage:
  "reportsNotStarted s (snd (Conn appendCerts dial s)) \<longleftrightarrow> listener s = None"
proof (cases "listener s")
  case None
  then show ?thesis by (simp add: Conn_def reportsNotStarted_def)
next
  case (Some l)
  have "\<not> reportsNotStarted s (snd (Conn appendCerts dial s))"
    using Some
    by (simp add: Conn_def Let_def dialConn_not_usage split: option.splits)
       (simp add: reportsNotStarted_def notStarted_def)
  with Some show ?thesis by simp
qed

text \<open>
  Claim C9 (amended). \<^verbatim>\<open>Addr\<close>, \<^verbatim>\<open>Conn\<close> and \<^verbatim>\<open>Close\<close> report the usage
  error "server is not started yet" exactly when the server has no listener, whatever
  its status; \<^verbatim>\<open>Addr\<close> then returns the empty string and \<^verbatim>\<open>Conn\<close> returns
  \<^verbatim>\<open>nil\<close>. With a listener \<^verbatim>\<open>Addr\<close> returns its address and changes nothing.
  \<^verbatim>\<open>Close\<close> always ends in the status closed and keeps the listener.
\<close>

theorem usage_error_iff_no_listener:
  "(reportsNotStarted s (snd (Addr s)) \<longleftrightarrow> listener s = None) \<and>
   (reportsNotStarted s (snd (Conn appendCerts dial s)) \<longleftrightarrow> listener s = None) \<and>
   (reportsNotStarted s (Close drained s) \<longleftrightarrow> listener s = None) \<and>
   (listener s = None \<longrightarrow>
      fst (Addr s) = [] \<and> fst (Conn appendCerts dial s) = Returns None) \<and>
   (listener s = Some l \<longrightarrow> Addr s = (l, s)) \<and>
   status (Close drained s) = status_closed \<and>
   listener (Close drained s) = listener s"
  by (simp add: Addr_usage Conn_usage Close_usage)
     (simp add: Addr_def Conn_def Close_def Let_def)

theorem usage_error_iff_no_listener_witness:
  "status unstartedServer = status_start \<and> listener unstartedServer = None \<and>
   reportsNotStarted unstartedServer (snd (Addr unstartedServer)) \<and>
   reportsNotStarted unstartedServer (snd (Conn (\<lambda>pem. True) (\<lambda>l c. None) unstartedServer)) \<and>
   reportsNotStarted unstartedServer (Close True unstartedServer) \<and>
   fst (Addr unstartedServer) = [] \<and>
   fst (Conn (\<lambda>pem. True) (\<lambda>l c. None) unstartedServer) = Returns None"
proof -
  have st: "status unstartedServer = status_start"
    by (simp add: unstartedServer_def startServer_def newServer_def)
  have l: "listener unstartedServer = None"
    by (simp add: unstartedServer_def startServer_def newServer_def)
  note th = usage_error_iff_no_listener[of unstartedServer "\<lambda>pem. True" "\<lambda>l c. None" True]
  from th l show ?thesis by (simp add: st)
qed

text \<open>
  A server that was started and then closed has the status closed and still has its
  listener: \<^verbatim>\<open>Addr\<close> returns the address, \<^verbatim>\<open>Conn\<close> dials it and returns the
  connection, \<^verbatim>\<open>Close\<close> runs again, and none of them reports a usage error.
\<close>

theorem closed_server_counterexample:
  "status closedServer = status_closed \<and>
   Addr closedServer = (''127.0.0.1:50051'', closedServer) \<and>
   \<not> reportsNotStarted closedServer (snd (Addr closedServer)) \<and>
   fst (Conn (\<lambda>pem. True) (\<lambda>l c. None) closedServer) =
     Returns (Some (ClientConn ''127.0.0.1:50051'' insecure_NewCredentials)) \<and>
   \<not> reportsNotStarted closedServer (snd (Conn (\<lambda>pem. True) (\<lambda>l c. None) closedServer)) \<and>
   \<not> reportsNotStarted closedServer (Close True closedServer)"
proof -
  have l: "listener closedServer = Some ''127.0.0.1:50051''"
    by (simp add: closedServer_def Close_def startServer_def newServer_def Let_def)
  have st: "status closedServer = status_closed"
    by (simp add: closedServer_def Close_def Let_def)
  have tl: "tlsc closedServer = None"
    by (simp add: closedServer_def Close_def startServer_def newServer_def Let_def)
  have c: "fst (Conn (\<lambda>pem. True) (\<lambda>l c. None) closedServer) =
     Returns (Some (ClientConn ''127.0.0.1:50051'' insecure_NewCredentials))"
    by (simp add: Conn_def l tl dialConn_def)
  show ?thesis
    by (simp add: st c Addr_usage Conn_usage Close_usage l) (simp add: Addr_def l)
qed

section \<open>Unary calls answer with the first matcher that passes\<close>

lemma firstMatch_0: "firstMatch (m # ms) r 0 \<longleftrightarrow> evaluate m r"
  by (simp add: firstMatch_def)

lemma firstMatch_Suc: "firstMatch (m # ms) r (Suc i) \<longleftrightarrow> \<not> evaluate m r \<and> firstMatch ms r i"
  by (auto simp: firstMatch_def)

lemma firstMatch_Cons:
  "firstMatch (m # ms) r i \<longleftrightarrow>
     (if evaluate m r then i = 0 else \<exists>j. i = Suc j \<and> firstMatch ms r j)"
  by (cases i) (auto simp: firstMatch_0 firstMatch_Suc)

lemma noMatch_Cons: "noMatch (m # ms) r \<longleftrightarrow> \<not> evaluate m r \<and> noMatch ms r"
  by (simp add: noMatch_def)

lemma noMatch_or_firstMatch: "noMatch ms r \<or> (\<exists>i. firstMatch ms r i)"
proof (induction ms)
  case Nil
  show ?case by (simp add: noMatch_def)
next
  case (Cons m ms)
  show ?case
  proof (cases "evaluate m r")
    case True
    then have "firstMatch (m # ms) r 0" by (simp add: firstMatch_0)
    then show ?thesis by blast
  next
    case False
    from Cons show ?thesis
    proof
      assume "noMatch ms r"
      with False show ?thesis by (simp add: noMatch_Cons)
    next
      assume "\<exists>i. firstMatch ms r i"
      then obtain i where "firstMatch ms r i" ..
      with False have "firstMatch (m # ms) r (Suc i)" by (simp add: firstMatch_Suc)
      then show ?thesis by blast
    qed
  qed
qed

lemma firstMatch_not_noMatch: "firstMatch ms r i \<Longrightarrow> \<not> noMatch ms r"
  by (auto simp: firstMatch_def noMatch_def list_all_iff)

lemma firstMatch_unique: "firstMatch ms r i \<Longrightarrow> firstMatch ms r j \<Longrightarrow> i = j"
proof (induction ms arbitrary: i j)
  case Nil
  then show ?case by (simp add: firstMatch_def)
next
  case (Cons m ms)
  then show ?case by (auto simp: firstMatch_Cons split: if_splits)
qed

lemma unaryScan_noMatch: "noMatch ms r \<Longrightarrow> unaryScan env r ms = (Error notFound, ms, [])"
  by (induction ms) (simp_all add: noMatch_Cons matched_eq_evaluate)

lemma unaryScan_firstMatch:
  "firstMatch ms r i \<Longrightarrow>
   unaryScan env r ms =
     (case handler (ms ! i) of
        None \<Rightarrow> (Panic, ms[i := capture (ms ! i) r], [])
      | Some h \<Rightarrow>
          (case unaryRespond env (h r) of
             (out, tr) \<Rightarrow> (out, ms[i := capture (ms ! i) r], tr)))"
proof (induction ms arbitrary: i)
  case Nil
  then show ?case by (simp add: firstMatch_def)
next
  case (Cons m ms)
  show ?case
  proof (cases "evaluate m r")
    case True
    with Cons.prems have "i = 0" by (simp add: firstMatch_Cons)
    with True show ?thesis
      by (simp add: matched_eq_evaluate split: option.splits prod.splits)
  next
    case False
    with Cons.prems obtain j where i: "i = Suc j" and fm: "firstMatch ms r j"
      by (auto simp: firstMatch_Cons)
    from Cons.IH[OF fm] False i show ?thesis
      by (simp add: matched_eq_evaluate split: option.splits prod.splits)
  qed
qed

text \<open>
  Claim C1. For a unary call that decoded its message into the request \<open>r\<close>: either
  no registered matcher passes on \<open>r\<close> or there is a first one that does. In the first
  case the call fails with the not-found status, no matcher is touched and nothing is
  emitted. In the second, with \<open>i\<close> the least position of a matcher all of whose
  predicates return true on \<open>r\<close>, that matcher and no other captures \<open>r\<close>, and the
  outcome of the call is the one its handler's Response gives (a panic when it has no
  handler).
\<close>

theorem unary_selects_first_match:
  "case createUnaryHandler env s (Inr doc) of
     (out, s', tr) \<Rightarrow>
       (let r = request env doc; ms = matchers s
        in (noMatch ms r \<or> (\<exists>i. firstMatch ms r i)) \<and>
           (noMatch ms r \<longrightarrow> out = Error notFound \<and> matchers s' = ms \<and> tr = []) \<and>
           (firstMatch ms r i \<longrightarrow>
              matchers s' = ms[i := capture (ms ! i) r] \<and>
              (out, tr) = (case handler (ms ! i) of
                             None \<Rightarrow> (Panic, [])
                           | Some h \<Rightarrow> unaryRespond env (h r))))"
proof -
  let ?r = "request env doc" and ?ms = "matchers s"
  have ms1: "matchers (record_request s ?r) = ?ms" by (simp add: record_request_def)
  have A: "noMatch ?ms ?r \<or> (\<exists>i. firstMatch ?ms ?r i)" by (rule noMatch_or_firstMatch)
  from A show ?thesis
  proof
    assume nm: "noMatch ?ms ?r"
    then have "\<not> firstMatch ?ms ?r i" using firstMatch_not_noMatch by blast
    with nm show ?thesis
      by (simp add: createUnaryHandler_def Let_def ms1 unaryScan_noMatch)
  next
    assume "\<exists>j. firstMatch ?ms ?r j"
    then obtain j where j: "firstMatch ?ms ?r j" ..
    then have nn: "\<not> noMatch ?ms ?r" by (rule firstMatch_not_noMatch)
    have u: "firstMatch ?ms ?r i \<Longrightarrow> i = j" using j by (blast intro: firstMatch_unique)
    from j nn u show ?thesis
      by (auto simp: createUnaryHandler_def Let_def ms1 unaryScan_firstMatch
          split: prod.splits option.splits)
  qed
qed

text \<open>The example: both matchers pass, the first one answers.\<close>

lemma request_env0: "request env0 [] = ping"
  by (simp add: request_def env0_def newRequest_def splitMethodFullName_def ping_def)

lemma evaluate_pingMatcher: "evaluate pingMatcher ping"
  by (simp add: evaluate_def pingMatcher_def matcher_Response_def m0_def methodMatchFunc_def
      Contains_def ping_def)

lemma evaluate_svcMatcher: "evaluate svcMatcher ping"
  by (simp add: evaluate_def svcMatcher_def matcher_Response_def serviceMatchFunc_def
      TrimPrefix_def ping_def)

lemma invoke_pingMatcher:
  "invoke pingMatcher r = Some \<lparr>Headers = [], Messages = [[(''ok'', JBool True)]], Trailers = [], Status = None\<rparr>"
  by (simp add: pingMatcher_def invoke_Response previous_None m0_def NewResponse_def)

lemma handler_invoke: "invoke m r = Some res \<Longrightarrow> \<exists>h. handler m = Some h \<and> h r = res"
  by (auto simp: invoke_def split: option.splits)

lemma unaryRespond_ping:
  "unaryRespond env0 \<lparr>Headers = [], Messages = [[(''ok'', JBool True)]], Trailers = [], Status = None\<rparr>
     = (Reply [(''ok'', JBool True)], [])"
  by (simp add: unaryRespond_def entries_def Status_Err_def firstMessage_def env0_def)

theorem unary_selects_first_match_witness:
  "firstMatch (matchers twoServer) (request env0 []) 0 \<and>
   evaluate (matchers twoServer ! 1) (request env0 []) \<and>
   fst (createUnaryHandler env0 twoServer (Inr [])) = Reply [(''ok'', JBool True)] \<and>
   matchers (fst (snd (createUnaryHandler env0 twoServer (Inr [])))) =
     [capture pingMatcher ping, svcMatcher]"
proof -
  have fm: "firstMatch (matchers twoServer) (request env0 []) 0"
    by (simp add: twoServer_def firstMatch_0 request_env0 evaluate_pingMatcher)
  have e2: "evaluate (matchers twoServer ! 1) (request env0 [])"
    by (simp add: twoServer_def request_env0 evaluate_svcMatcher)
  obtain h where h: "handler pingMatcher = Some h"
    and hr: "h ping = \<lparr>Headers = [], Messages = [[(''ok'', JBool True)]], Trailers = [], Status = None\<rparr>"
    using handler_invoke[OF invoke_pingMatcher] by blast
  note th = unary_selects_first_match[where env=env0 and s=twoServer and doc="[]" and i=0, unfolded Let_def case_prod_beta,
      THEN conjunct2, THEN conjunct2, THEN mp, OF fm]
  from th have m: "matchers (fst (snd (createUnaryHandler env0 twoServer (Inr [])))) =
     [capture pingMatcher ping, svcMatcher]"
    by (simp add: twoServer_def request_env0)
  have ms0: "matchers twoServer ! 0 = pingMatcher" by (simp add: twoServer_def)
  from th[THEN conjunct2, THEN arg_cong[where f=fst]]
  have o: "fst (createUnaryHandler env0 twoServer (Inr [])) = Reply [(''ok'', JBool True)]"
    unfolding request_env0 ms0 h fst_conv by (simp add: hr unaryRespond_ping)
  show ?thesis by (intro conjI fm e2 o m)
qed

section \<open>The reply of a unary call\<close>

lemma emit_accepting: "accepting env \<Longrightarrow> emit env tr e = (None, tr @ [e])"
  by (simp add: emit_def accepting_def)

lemma emitEach_accepting:
  "accepting env \<Longrightarrow>
   emitEach env op kvs tr = (None, tr @ map (\<lambda>(k, vv). op (Pairs k vv)) kvs)"
  by (induction kvs arbitrary: tr) (auto simp: emit_accepting)

lemma unaryRespond_error_status:
  "Status_Err (Status res) = Some err \<Longrightarrow> fst (unaryRespond env res) \<noteq> Reply w"
  by (simp add: unaryRespond_def split: prod.splits option.splits)

lemma unaryRespond_accepting:
  "accepting env \<Longrightarrow>
   fst (unaryRespond env res) =
     (case Status_Err (Status res) of
        Some err \<Rightarrow> Error err
      | None \<Rightarrow> (case firstMessage env res of Inl err \<Rightarrow> Error err | Inr mes \<Rightarrow> Reply mes))"
  by (simp add: unaryRespond_def emitEach_accepting split: option.splits sum.splits)

lemma createUnaryHandler_firstMatch:
  assumes "firstMatch (matchers s) (request env doc) i"
    and "handler (matchers s ! i) = Some h"
  shows "fst (createUnaryHandler env s (Inr doc)) = fst (unaryRespond env (h (request env doc)))"
  using assms
  by (simp add: createUnaryHandler_def Let_def record_request_def unaryScan_firstMatch
      split: prod.splits)

text \<open>
  Claim C6. Take a unary call whose first passing matcher has a handler, and let
  \<open>res\<close> be the Response of that handler. When the status of \<open>res\<close> is an error
  status, the call never returns a reply message, whatever messages are queued, and,
  the runtime accepting the headers and trailers of \<open>res\<close>, it returns exactly the
  error of that status. When \<open>res\<close> has no status or the status \<^verbatim>\<open>OK\<close>, and the
  runtime accepts the headers and trailers, the reply is the default empty message if
  no message is queued and else the encoding of the first queued message (the error of
  the codec if that message cannot be encoded).
\<close>

theorem unary_reply:
  assumes run: "createUnaryHandler env s (Inr doc) = (out, s', tr)"
    and sel: "firstMatch (matchers s) (request env doc) i"
    and h: "handler (matchers s ! i) = Some h"
    and res: "res = h (request env doc)"
  shows "(Status res = Some st \<and> Code st \<noteq> OK \<longrightarrow>
            (\<forall>w. out \<noteq> Reply w) \<and> (accepting env \<longrightarrow> out = Error (StatusError st))) \<and>
         (accepting env \<and> (Status res = None \<or> Status res = Some (NewStatus OK msg)) \<longrightarrow>
            (case Messages res of
               [] \<Rightarrow> out = Reply (NewOutput env)
             | m # _ \<Rightarrow> (case Encode env m of Inr w \<Rightarrow> out = Reply w | Inl err \<Rightarrow> out = Error err)))"
proof -
  from createUnaryHandler_firstMatch[OF sel h] run res
  have out: "out = fst (unaryRespond env res)" by simp
  show ?thesis
  proof (intro conjI impI allI)
    fix w assume "Status res = Some st \<and> Code st \<noteq> OK"
    then have "Status_Err (Status res) = Some (StatusError st)" by (simp add: Status_Err_def)
    then show "out \<noteq> Reply w" unfolding out by (rule unaryRespond_error_status)
  next
    assume "Status res = Some st \<and> Code st \<noteq> OK" and "accepting env"
    then show "out = Error (StatusError st)"
      unfolding out by (simp add: unaryRespond_accepting Status_Err_def)
  next
    assume a: "accepting env \<and> (Status res = None \<or> Status res = Some (NewStatus OK msg))"
    then have "Status_Err (Status res) = None" by (auto simp: Status_Err_def)
    with a show "case Messages res of
               [] \<Rightarrow> out = Reply (NewOutput env)
             | m # _ \<Rightarrow> (case Encode env m of Inr w \<Rightarrow> out = Reply w | Inl err \<Rightarrow> out = Error err)"
      unfolding out
      by (simp add: unaryRespond_accepting firstMessage_def split: list.splits sum.splits)
  qed
qed

text \<open>
  The example: the matcher queues a message and sets the status \<^verbatim>\<open>Internal\<close>; the
  call returns that status.
\<close>

lemma invoke_failingMatcher:
  "invoke failingMatcher r =
     Some \<lparr>Headers = [(''k'', [''v''])], Messages = [[(''ok'', JBool True)]], Trailers = [],
           Status = Some (NewStatus Internal ''boom'')\<rparr>"
  by (simp add: failingMatcher_def matcher_Status_def invoke_def Let_def
      previous_invoke[OF invoke_Response] previous_invoke[OF invoke_Header]
      previous_None m0_def NewResponse_def MD_Append_def ToLower_def lowerChar_def)

lemma Encode_env0: "Encode env0 m = Inr m"
  by (simp add: env0_def)

lemma accepting_env0: "accepting env0"
  by (simp add: accepting_def env0_def)

theorem unary_reply_witness:
  "accepting env0 \<and>
   firstMatch [failingMatcher] (request env0 []) 0 \<and>
   fst (createUnaryHandler env0 ((newServer False)\<lparr>matchers := [failingMatcher]\<rparr>) (Inr [])) =
     Error (StatusError (NewStatus Internal ''boom''))"
proof -
  let ?s = "(newServer False)\<lparr>matchers := [failingMatcher]\<rparr>"
  let ?X = "createUnaryHandler env0 ?s (Inr [])"
  let ?res = "\<lparr>Headers = [(''k'', [''v''])], Messages = [[(''ok'', JBool True)]], Trailers = [],
           Status = Some (NewStatus Internal ''boom'')\<rparr>"
  have ev: "evaluate failingMatcher ping"
    by (simp add: evaluate_def failingMatcher_def matcher_Status_def matcher_Response_def
        matcher_Header_def m0_def methodMatchFunc_def Contains_def ping_def)
  have fm: "firstMatch (matchers ?s) (request env0 []) 0"
    by (simp add: firstMatch_0 request_env0 ev)
  obtain h where h: "handler failingMatcher = Some h" and hr: "h ping = ?res"
    using handler_invoke[OF invoke_failingMatcher] by blast
  have run: "?X = (fst ?X, fst (snd ?X), snd (snd ?X))" by simp
  have h': "handler (matchers ?s ! 0) = Some h" by (simp add: h)
  have res: "?res = h (request env0 [])" by (simp add: request_env0 hr)
  have st: "Status ?res = Some (NewStatus Internal ''boom'') \<and> Code (NewStatus Internal ''boom'') \<noteq> OK"
    by simp
  note th = unary_reply[OF run fm h' res, THEN conjunct1, THEN mp, OF st, THEN conjunct2, THEN mp,
      OF accepting_env0]
  from fm have fm': "firstMatch [failingMatcher] (request env0 []) 0" by simp
  show ?thesis by (intro conjI accepting_env0 fm' th)
qed

section \<open>Server streaming: every passing matcher answers until an error status\<close>

lemma sent_append: "sent (a @ b) = sent a @ sent b"
  by (induction a rule: sent.induct) simp_all

lemma received_append: "received (a @ b) = received a @ received b"
  by (induction a rule: received.induct) simp_all

lemma sent_headers: "sent (map (\<lambda>(k, vv). SendHeader (Pairs k vv)) kvs) = []"
  by (induction kvs) auto

lemma sent_setTrailers: "sent (setTrailers md tr) = sent tr"
proof -
  have "sent (map (\<lambda>(k, vv). StreamSetTrailer (Pairs k vv)) kvs) = []" for kvs :: "(string \<times> string) list"
    by (induction kvs) auto
  then show ?thesis by (simp add: setTrailers_def sent_append)
qed


lemma emit_trace:
  "emit env tr e = (err, tr') \<Longrightarrow> tr' = tr \<or> tr' = tr @ [e]"
  by (auto simp: emit_def split: option.splits)

lemma emitEach_trace:
  "emitEach env op kvs tr = (err, tr') \<Longrightarrow>
   \<exists>n. tr' = tr @ map (\<lambda>(k, vv). op (Pairs k vv)) (take n kvs)"
proof (induction kvs arbitrary: tr)
  case Nil
  then show ?case by simp
next
  case (Cons kv kvs)
  obtain k vv where kv: "kv = (k, vv)" by (cases kv)
  show ?case
  proof (cases "Refuses env tr (op (Pairs k vv))")
    case (Some e)
    with Cons.prems kv have "tr' = tr" by (simp add: emit_def)
    then have "tr' = tr @ map (\<lambda>(k, vv). op (Pairs k vv)) (take 0 (kv # kvs))" by simp
    then show ?thesis by blast
  next
    case None
    with Cons.prems kv have "emitEach env op kvs (tr @ [op (Pairs k vv)]) = (err, tr')"
      by (simp add: emit_def)
    from Cons.IH[OF this] obtain n where
      "tr' = (tr @ [op (Pairs k vv)]) @ map (\<lambda>(k, vv). op (Pairs k vv)) (take n kvs)" ..
    then have "tr' = tr @ map (\<lambda>(k, vv). op (Pairs k vv)) (take (Suc n) (kv # kvs))"
      by (simp add: kv)
    then show ?thesis by blast
  qed
qed





















lemma createServerStreamingHandler_doc:
  "msgs inc = Inr doc # rest \<Longrightarrow>
   createServerStreamingHandler env s inc =
     (case serverScan env (request env doc) (matchers s) [Received (Inr doc)] of
        (out, ms', tr) \<Rightarrow> (out, record_request s (request env doc)\<lparr>matchers := ms'\<rparr>, tr))"
  by (simp add: createServerStreamingHandler_def RecvMsg_def Let_def record_request_def)











section \<open>Client streaming: one reply, from the first pair that passes\<close>

lemma received_SendHeaders: "received (map (\<lambda>(k, vv). SendHeader (Pairs k vv)) kvs) = []"
  by (induction kvs) auto

lemma emitEach_SendHeader:
  assumes "emitEach env SendHeader kvs tr = (err, tr')"
  shows "sent tr' = sent tr" and "received tr' = received tr"
proof -
  from emitEach_trace[OF assms] obtain n where
    "tr' = tr @ map (\<lambda>(k, vv). SendHeader (Pairs k vv)) (take n kvs)" ..
  then show "sent tr' = sent tr" and "received tr' = received tr"
    by (simp_all add: sent_append received_append sent_headers received_SendHeaders)
qed

lemma received_setTrailers: "received (setTrailers md tr) = received tr"
proof -
  have "received (map (\<lambda>(k, vv). StreamSetTrailer (Pairs k vv)) kvs) = []"
    for kvs :: "(string \<times> string) list"
    by (induction kvs) auto
  then show ?thesis by (simp add: setTrailers_def received_append)
qed

lemma clientRespond_trace:
  assumes "clientRespond env res tr = (out, tr')"
  shows "received tr' = received tr"
    and "sent tr' = sent tr \<or> (\<exists>w. sent tr' = sent tr @ [w] \<and> out = Done)"
    and "out = Done \<longrightarrow> (\<exists>w. sent tr' = sent tr @ [w])"
proof -
  have "received tr' = received tr \<and>
        (sent tr' = sent tr \<and> out \<noteq> Done \<or> (\<exists>w. sent tr' = sent tr @ [w] \<and> out = Done))"
  proof (cases "Status_Err (Status res)")
    case (Some e)
    with assms show ?thesis by (auto simp: clientRespond_def)
  next
    case None
    show ?thesis
    proof (cases "firstMessage env res")
      case (Inl e)
      with None assms show ?thesis by (auto simp: clientRespond_def)
    next
      case (Inr mes)
      obtain e1 tr1 where e1: "emitEach env SendHeader (entries (Headers res)) tr = (e1, tr1)"
        by (cases "emitEach env SendHeader (entries (Headers res)) tr")
      note h = emitEach_SendHeader[OF e1]
      show ?thesis
      proof (cases e1)
        case (Some e)
        with None Inr e1 assms h show ?thesis by (auto simp: clientRespond_def)
      next
        case None' : None
        let ?tr2 = "setTrailers (Trailers res) tr1"
        have t2: "sent ?tr2 = sent tr" "received ?tr2 = received tr"
          by (simp_all add: sent_setTrailers received_setTrailers h)
        show ?thesis
        proof (cases "Refuses env ?tr2 (SendMsg mes)")
          case (Some e)
          with None None' Inr e1 assms t2 show ?thesis
            by (auto simp: clientRespond_def emit_def)
        next
          case None'' : None
          with None None' Inr e1 assms have "tr' = ?tr2 @ [SendMsg mes]" "out = Done"
            by (simp_all add: clientRespond_def emit_def)
          with t2 show ?thesis by (simp add: sent_append received_append)
        qed
      qed
    qed
  qed
  then show "received tr' = received tr"
    and "sent tr' = sent tr \<or> (\<exists>w. sent tr' = sent tr @ [w] \<and> out = Done)"
    and "out = Done \<longrightarrow> (\<exists>w. sent tr' = sent tr @ [w])"
    by auto
qed

lemma clientRespond_accepting:
  "accepting env \<Longrightarrow>
   clientRespond env res tr =
     (case Status_Err (Status res) of
        Some err \<Rightarrow> (Error err, tr)
      | None \<Rightarrow>
          (case firstMessage env res of
             Inl err \<Rightarrow> (Error err, tr)
           | Inr mes \<Rightarrow>
               (Done, setTrailers (Trailers res)
                        (tr @ map (\<lambda>(k, vv). SendHeader (Pairs k vv)) (entries (Headers res)))
                      @ [SendMsg mes])))"
  by (simp add: clientRespond_def emitEach_accepting emit_accepting split: option.splits sum.splits)


lemma clientScanMatchers_noMatch: "noMatch ms r \<Longrightarrow> clientScanMatchers env r ms tr = None"
  by (induction ms) (simp_all add: noMatch_Cons matched_eq_evaluate)

lemma clientScanMatchers_firstMatch:
  "firstMatch ms r i \<Longrightarrow>
   clientScanMatchers env r ms tr =
     Some (case handler (ms ! i) of
             None \<Rightarrow> (Panic, ms[i := capture (ms ! i) r], tr)
           | Some h \<Rightarrow>
               (case clientRespond env (h r) tr of
                  (out, tr') \<Rightarrow> (out, ms[i := capture (ms ! i) r], tr')))"
proof (induction ms arbitrary: i)
  case Nil
  then show ?case by (simp add: firstMatch_def)
next
  case (Cons m ms)
  show ?case
  proof (cases "evaluate m r")
    case True
    with Cons.prems have "i = 0" by (simp add: firstMatch_Cons)
    with True show ?thesis
      by (simp add: matched_eq_evaluate split: option.splits prod.splits)
  next
    case False
    with Cons.prems obtain j where i: "i = Suc j" and fm: "firstMatch ms r j"
      by (auto simp: firstMatch_Cons)
    from Cons.IH[OF fm] False i show ?thesis
      by (simp add: matched_eq_evaluate split: option.splits prod.splits)
  qed
qed


lemma firstPair_0: "firstPair ms (r # rs) 0 i \<longleftrightarrow> firstMatch ms r i"
  by (simp add: firstPair_def)

lemma firstPair_Suc:
  "firstPair ms (r # rs) (Suc k) i \<longleftrightarrow> noMatch ms r \<and> firstPair ms rs k i"
  by (auto simp: firstPair_def)

lemma clientScan_firstPair:
  "firstPair ms rs k i \<Longrightarrow>
   clientScan env rs ms tr =
     (case handler (ms ! i) of
        None \<Rightarrow> (Panic, ms[i := capture (ms ! i) (rs ! k)], tr)
      | Some h \<Rightarrow>
          (case clientRespond env (h (rs ! k)) tr of
             (out, tr') \<Rightarrow> (out, ms[i := capture (ms ! i) (rs ! k)], tr')))"
proof (induction rs arbitrary: k)
  case Nil
  then show ?case by (simp add: firstPair_def)
next
  case (Cons r rs)
  show ?case
  proof (cases k)
    case 0
    with Cons.prems have "firstMatch ms r i" by (simp add: firstPair_0)
    with 0 show ?thesis
      by (simp add: clientScanMatchers_firstMatch split: option.splits prod.splits)
  next
    case (Suc j)
    with Cons.prems have nm: "noMatch ms r" and fp: "firstPair ms rs j i"
      by (simp_all add: firstPair_Suc)
    from Cons.IH[OF fp] nm Suc show ?thesis
      by (simp add: clientScanMatchers_noMatch split: option.splits prod.splits)
  qed
qed


lemma RecvMsg_Cons: "msgs inc = x # xs \<Longrightarrow> RecvMsg inc = (Inr x, inc\<lparr>msgs := xs\<rparr>)"
  by (simp add: RecvMsg_def)

lemma RecvMsg_Nil: "msgs inc = [] \<Longrightarrow> RecvMsg inc = (Inl (final inc), inc)"
  by (simp add: RecvMsg_def)

lemma clientRecv_docs:
  "final inc = EOF \<Longrightarrow> msgs inc = map Inr ds \<Longrightarrow>
   clientRecv env s rs tr inc =
     (case clientScan env (rs @ map (request env) ds) (matchers s)
             (tr @ map (\<lambda>d. Received (Inr d)) ds) of
        (out, ms', tr') \<Rightarrow>
          Some (out, s\<lparr>requests := requests s @ map (request env) ds, matchers := ms'\<rparr>, tr'))"
proof (induction ds arbitrary: s rs tr inc)
  case Nil
  then show ?case
    by (subst clientRecv.simps) (simp add: RecvMsg_Nil split: prod.splits)
next
  case (Cons d ds)
  let ?inc = "inc\<lparr>msgs := map Inr ds\<rparr>"
  have r: "RecvMsg inc = (Inr (Inr d), ?inc)"
    using Cons.prems(2) by (simp add: RecvMsg_Cons)
  have f: "final ?inc = EOF" "msgs ?inc = map Inr ds" using Cons.prems(1) by simp_all
  show ?case
    by (subst clientRecv.simps)
       (simp add: r Cons.IH[OF f] record_request_def split: prod.splits)
qed

lemma firstPair_not_noPair: "firstPair ms rs k i \<Longrightarrow> \<not> list_all (noMatch ms) rs"
proof
  assume fp: "firstPair ms rs k i" and "list_all (noMatch ms) rs"
  then have "noMatch ms (rs ! k)" by (simp add: firstPair_def list_all_length)
  with fp firstMatch_not_noMatch show False by (auto simp: firstPair_def)
qed

lemma firstPair_unique:
  "firstPair ms rs k i \<Longrightarrow> firstPair ms rs k' i' \<Longrightarrow> k = k' \<and> i = i'"
proof (induction rs arbitrary: k k')
  case Nil
  then show ?case by (simp add: firstPair_def)
next
  case (Cons r rs)
  show ?case
  proof (cases k)
    case 0
    with Cons.prems(1) have fm: "firstMatch ms r i" by (simp add: firstPair_0)
    show ?thesis
    proof (cases k')
      case k0: 0
      with Cons.prems(2) have "firstMatch ms r i'" by (simp add: firstPair_0)
      with fm 0 k0 firstMatch_unique show ?thesis by blast
    next
      case (Suc j')
      with Cons.prems(2) have "noMatch ms r" by (simp add: firstPair_Suc)
      with fm firstMatch_not_noMatch show ?thesis by blast
    qed
  next
    case (Suc j)
    with Cons.prems(1) have nm: "noMatch ms r" and fp: "firstPair ms rs j i"
      by (simp_all add: firstPair_Suc)
    show ?thesis
    proof (cases k')
      case 0
      with Cons.prems(2) have "firstMatch ms r i'" by (simp add: firstPair_0)
      with nm firstMatch_not_noMatch show ?thesis by blast
    next
      case Suc' : (Suc j')
      with Cons.prems(2) have "firstPair ms rs j' i'" by (simp add: firstPair_Suc)
      from Cons.IH[OF fp this] Suc Suc' show ?thesis by simp
    qed
  qed
qed



text \<open>
  The example: three documents, of which only the second passes the matcher; one reply,
  from the answer to the second.
\<close>

lemma request_env0_doc:
  "request env0 d = \<lparr>Service = ''pkg.Svc'', Method = ''Ping'', ReqHeaders = [], Message = d\<rparr>"
  by (simp add: request_def env0_def newRequest_def splitMethodFullName_def)

lemma evaluate_secondMatcher:
  "evaluate secondMatcher r \<longleftrightarrow> map_of (Message r) ''n'' = Some (JNumber 2)"
  by (simp add: evaluate_def secondMatcher_def matcher_Response_def)

lemma invoke_secondMatcher:
  "invoke secondMatcher r =
     Some \<lparr>Headers = [], Messages = [[(''ok'', JBool True)]], Trailers = [], Status = None\<rparr>"
  by (simp add: secondMatcher_def invoke_Response previous_None NewResponse_def)







section \<open>What every call does to the capture logs\<close>

lemma evaluate_matchFuncs: "matchFuncs m' = matchFuncs m \<Longrightarrow> evaluate m' = evaluate m"
  by (rule ext) (simp add: evaluate_def)

lemma captures_refl: "captures rs m m"
  by (simp add: captures_def)

lemma captures_capture: "evaluate m r \<Longrightarrow> captures [r] m (capture m r)"
  by (simp add: captures_def capture_def)

lemma captures_mono: "subseq rs rs' \<Longrightarrow> captures rs m m' \<Longrightarrow> captures rs' m m'"
  unfolding captures_def by (meson subseq_order.order_trans)

lemma captures_trans:
  assumes "captures rs1 m m'" and "captures rs2 m' m''"
  shows "captures (rs1 @ rs2) m m''"
proof -
  from assms(1) obtain a1 where 1: "matchFuncs m' = matchFuncs m" "handler m' = handler m"
    "mrequests m' = mrequests m @ a1" "subseq a1 rs1" "list_all (evaluate m) a1"
    unfolding captures_def by blast
  from assms(2) obtain a2 where 2: "matchFuncs m'' = matchFuncs m'" "handler m'' = handler m'"
    "mrequests m'' = mrequests m' @ a2" "subseq a2 rs2" "list_all (evaluate m') a2"
    unfolding captures_def by blast
  have e: "evaluate m' = evaluate m" using 1(1) by (rule evaluate_matchFuncs)
  have "mrequests m'' = mrequests m @ (a1 @ a2)" using 1(3) 2(3) by simp
  moreover have "subseq (a1 @ a2) (rs1 @ rs2)" using 1(4) 2(4) by (rule list_emb_append_mono)
  moreover have "list_all (evaluate m) (a1 @ a2)" using 1(5) 2(5) e by simp
  ultimately show ?thesis using 1(1,2) 2(1,2) unfolding captures_def by auto
qed

lemma captures_all_refl: "list_all2 (captures rs) ms ms"
  by (simp add: list_all2_refl captures_refl)

lemma captures_all_mono:
  "subseq rs rs' \<Longrightarrow> list_all2 (captures rs) ms ms' \<Longrightarrow> list_all2 (captures rs') ms ms'"
  by (erule list_all2_mono) (rule captures_mono)

lemma captures_all_trans:
  "list_all2 (captures rs1) ms ms' \<Longrightarrow> list_all2 (captures rs2) ms' ms'' \<Longrightarrow>
   list_all2 (captures (rs1 @ rs2)) ms ms''"
  by (rule list_all2_trans[where ?P1.0="captures rs1" and ?P2.0="captures rs2"])
     (auto intro: captures_trans)

lemma unaryScan_captures:
  "unaryScan env r ms = (out, ms', tr) \<Longrightarrow> list_all2 (captures [r]) ms ms'"
proof (induction ms arbitrary: out ms' tr)
  case Nil
  then show ?case by simp
next
  case (Cons m ms)
  show ?case
  proof (cases "evaluate m r")
    case True
    with Cons.prems have "ms' = capture m r # ms"
      by (auto simp: matched_eq_evaluate split: option.splits prod.splits)
    with True show ?thesis by (simp add: captures_capture captures_all_refl)
  next
    case False
    with Cons.prems obtain ms'' where "unaryScan env r ms = (out, ms'', tr)" "ms' = m # ms''"
      by (auto simp: matched_eq_evaluate split: prod.splits)
    with Cons.IH show ?thesis by (simp add: captures_refl)
  qed
qed

lemma emit_SendMsg:
  assumes "emit env tr (SendMsg w) = (err, tr')"
  shows "received tr' = received tr"
  using emit_trace[OF assms] by (auto simp: received_append)

lemma sendEach_received:
  "sendEach env ms tr = (err, tr') \<Longrightarrow> received tr' = received tr"
proof (induction ms arbitrary: tr)
  case Nil
  then show ?case by simp
next
  case (Cons m ms)
  show ?case
  proof (cases "Encode env m")
    case (Inl e)
    with Cons.prems show ?thesis by simp
  next
    case (Inr w)
    obtain e1 tr1 where e: "emit env tr (SendMsg w) = (e1, tr1)"
      by (cases "emit env tr (SendMsg w)")
    note r1 = emit_SendMsg[OF e]
    show ?thesis
    proof (cases e1)
      case None
      with Cons.prems Inr e have "sendEach env ms tr1 = (err, tr')" by simp
      from Cons.IH[OF this] r1 show ?thesis by simp
    next
      case (Some e')
      with Cons.prems Inr e r1 show ?thesis by simp
    qed
  qed
qed

lemma serverScan_post:
  "serverScan env r ms tr = (out, ms', tr') \<Longrightarrow>
   list_all2 (captures [r]) ms ms' \<and> received tr' = received tr"
proof (induction ms arbitrary: out ms' tr tr')
  case Nil
  then show ?case by simp
next
  case (Cons m ms)
  show ?case
  proof (cases "evaluate m r")
    case False
    with Cons.prems obtain ms'' where "serverScan env r ms tr = (out, ms'', tr')" "ms' = m # ms''"
      by (auto simp: matched_eq_evaluate split: prod.splits)
    with Cons.IH show ?thesis by (simp add: captures_refl)
  next
    case True
    note cap = captures_capture[OF True]
    show ?thesis
    proof (cases "handler m")
      case None
      with True Cons.prems show ?thesis
        by (auto simp: matched_eq_evaluate cap captures_all_refl)
    next
      case (Some h)
      let ?res = "h r"
      obtain e1 tr1 where e1: "emitEach env SendHeader (entries (Headers ?res)) tr = (e1, tr1)"
        by (cases "emitEach env SendHeader (entries (Headers ?res)) tr")
      note r1 = emitEach_SendHeader(2)[OF e1]
      let ?tr2 = "setTrailers (Trailers ?res) tr1"
      have r2: "received ?tr2 = received tr" by (simp add: received_setTrailers r1)
      obtain e3 tr3 where e3: "sendEach env (Messages ?res) ?tr2 = (e3, tr3)"
        by (cases "sendEach env (Messages ?res) ?tr2")
      have r3: "received tr3 = received tr" using sendEach_received[OF e3] r2 by simp
      show ?thesis
      proof (cases "e1 = None \<and> Status_Err (Status ?res) = None \<and> e3 = None")
        case False
        with True Some Cons.prems e1 e3 have "ms' = capture m r # ms"
          and "tr' = tr1 \<or> tr' = ?tr2 \<or> tr' = tr3"
          by (auto simp: matched_eq_evaluate Let_def split: option.splits)
        with r1 r2 r3 cap show ?thesis by (auto simp: captures_all_refl)
      next
        case True' : True
        with True Some Cons.prems e1 e3 obtain ms'' where
          "serverScan env r ms tr3 = (out, ms'', tr')" "ms' = capture m r # ms''"
          by (auto simp: matched_eq_evaluate Let_def split: prod.splits)
        with Cons.IH[of tr3 out ms'' tr'] r3 cap show ?thesis by simp
      qed
    qed
  qed
qed

lemma clientScanMatchers_post:
  "clientScanMatchers env r ms tr = Some (out, ms', tr') \<Longrightarrow>
   list_all2 (captures [r]) ms ms' \<and> received tr' = received tr"
proof (induction ms arbitrary: out ms' tr')
  case Nil
  then show ?case by simp
next
  case (Cons m ms)
  show ?case
  proof (cases "evaluate m r")
    case False
    with Cons.prems obtain ms'' where
      "clientScanMatchers env r ms tr = Some (out, ms'', tr')" "ms' = m # ms''"
      by (auto simp: matched_eq_evaluate split: option.splits prod.splits)
    with Cons.IH show ?thesis by (simp add: captures_refl)
  next
    case True
    note cap = captures_capture[OF True]
    show ?thesis
    proof (cases "handler m")
      case None
      with True Cons.prems show ?thesis
        by (auto simp: matched_eq_evaluate cap captures_all_refl)
    next
      case (Some h)
      obtain o1 t1 where cr: "clientRespond env (h r) tr = (o1, t1)"
        by (cases "clientRespond env (h r) tr")
      with True Some Cons.prems have "ms' = capture m r # ms" "tr' = t1"
        by (auto simp: matched_eq_evaluate)
      with clientRespond_trace(1)[OF cr] cap show ?thesis by (simp add: captures_all_refl)
    qed
  qed
qed

lemma clientScan_post:
  "clientScan env rs ms tr = (out, ms', tr') \<Longrightarrow>
   list_all2 (captures rs) ms ms' \<and> received tr' = received tr"
proof (induction rs)
  case Nil
  then show ?case by (simp add: captures_all_refl)
next
  case (Cons r rs)
  show ?case
  proof (cases "clientScanMatchers env r ms tr")
    case None
    with Cons.prems have "clientScan env rs ms tr = (out, ms', tr')" by simp
    from Cons.IH[OF this] show ?thesis
      by (auto intro: captures_all_mono[rotated])
  next
    case (Some x)
    with Cons.prems have "clientScanMatchers env r ms tr = Some (out, ms', tr')" by simp
    from clientScanMatchers_post[OF this] show ?thesis
      by (auto intro: captures_all_mono[rotated])
  qed
qed

lemma biRespond_received:
  assumes "biRespond env res hs tr = (c, hs', tr')"
  shows "received tr' = received tr"
proof -
  obtain e1 tr1 where e1:
    "(if \<not> hs then emitEach env SendHeader (entries (Headers res)) tr else (None, tr)) = (e1, tr1)"
    by (cases "if \<not> hs then emitEach env SendHeader (entries (Headers res)) tr else (None, tr)")
  have r1: "received tr1 = received tr"
  proof (cases hs)
    case True
    with e1 show ?thesis by simp
  next
    case False
    with e1 have "emitEach env SendHeader (entries (Headers res)) tr = (e1, tr1)" by simp
    then show ?thesis by (rule emitEach_SendHeader(2))
  qed
  let ?tr2 = "setTrailers (Trailers res) tr1"
  have r2: "received ?tr2 = received tr" by (simp add: received_setTrailers r1)
  obtain e3 tr3 where e3: "sendEach env (Messages res) ?tr2 = (e3, tr3)"
    by (cases "sendEach env (Messages res) ?tr2")
  have r3: "received tr3 = received tr" using sendEach_received[OF e3] r2 by simp
  from assms e1 e3 have "tr' = tr1 \<or> tr' = ?tr2 \<or> tr' = tr3"
    unfolding biRespond_def by (auto simp: Let_def split: option.splits)
  with r1 r2 r3 show ?thesis by auto
qed

lemma biScan_post:
  "biScan env r ms hs tr = (c, ms', hs', tr') \<Longrightarrow>
   list_all2 (captures [r]) ms ms' \<and> received tr' = received tr"
proof (induction ms arbitrary: c ms' hs' tr')
  case Nil
  then show ?case by simp
next
  case (Cons m ms)
  show ?case
  proof (cases "evaluate m r")
    case False
    with Cons.prems obtain ms'' where
      "biScan env r ms hs tr = (c, ms'', hs', tr')" "ms' = m # ms''"
      by (auto simp: matched_eq_evaluate split: prod.splits)
    with Cons.IH show ?thesis by (simp add: captures_refl)
  next
    case True
    note cap = captures_capture[OF True]
    show ?thesis
    proof (cases "handler m")
      case None
      with True Cons.prems show ?thesis
        by (auto simp: matched_eq_evaluate cap captures_all_refl)
    next
      case (Some h)
      obtain c1 h1 t1 where br: "biRespond env (h r) hs tr = (c1, h1, t1)"
        by (cases "biRespond env (h r) hs tr")
      with True Some Cons.prems have "ms' = capture m r # ms" "tr' = t1"
        by (auto simp: matched_eq_evaluate)
      with biRespond_received[OF br] cap show ?thesis by (simp add: captures_all_refl)
    qed
  qed
qed

lemma biScan_noMatch:
  "noMatch ms r \<Longrightarrow> biScan env r ms hs tr = (Return (Error notFound), ms, hs, tr)"
  by (induction ms) (simp_all add: noMatch_Cons matched_eq_evaluate)

text \<open>
  What a call leaves behind, from a point of its receive loop on: \<open>xs\<close> are the
  messages taken from the stream after that point.
\<close>

lemma clientRecv_post:
  assumes "clientRecv env s rs tr inc = Some y"
  shows "(case y of (out, s', tr') \<Rightarrow>
      \<exists>xs. received tr' = received tr @ xs \<and> prefix xs (msgs inc) \<and>
           requests s' = requests s @ map (request env) (decoded xs) \<and>
           list_all2 (captures (rs @ map (request env) (decoded xs))) (matchers s) (matchers s'))"
  using assms
proof (induction rule: clientRecv.raw_induct[rotated, consumes 1])
  case (1 f env s rs tr inc y)
  show ?case
  proof (cases "msgs inc")
    case Nil
    then have rm: "RecvMsg inc = (Inl (final inc), inc)" by (rule RecvMsg_Nil)
    show ?thesis
    proof (cases "final inc = EOF")
      case True
      obtain out ms' tr' where sc: "clientScan env rs (matchers s) tr = (out, ms', tr')"
        by (cases "clientScan env rs (matchers s) tr")
      with 1(2) rm True have y: "y = (out, s\<lparr>matchers := ms'\<rparr>, tr')" by simp
      from clientScan_post[OF sc] show ?thesis by (simp add: y)
    next
      case False
      with 1(2) rm have "f env s rs tr inc = Some y" by simp
      from 1(1)[OF this] show ?thesis .
    qed
  next
    case (Cons x xs)
    then have rm: "RecvMsg inc = (Inr x, inc\<lparr>msgs := xs\<rparr>)" by (rule RecvMsg_Cons)
    show ?thesis
    proof (cases x)
      case (Inl e)
      with 1(2) rm have y: "y = (Error e, s, tr @ [Received x])" by simp
      have "received (tr @ [Received x]) = received tr @ [x]" by (simp add: received_append)
      moreover have "prefix [x] (msgs inc)" using Cons by simp
      moreover have "decoded [x] = []" using Inl by simp
      ultimately show ?thesis unfolding y by (auto simp: captures_all_refl)
    next
      case (Inr d)
      let ?r = "request env d"
      from 1(2) rm Inr have
        "f env (record_request s ?r) (rs @ [?r]) (tr @ [Received x]) (inc\<lparr>msgs := xs\<rparr>)
           = Some y" by simp
      from 1(1)[OF this] obtain out s' tr' ys where y: "y = (out, s', tr')"
        and a: "received tr' = received (tr @ [Received x]) @ ys" "prefix ys xs"
          "requests s' = requests (record_request s ?r) @ map (request env) (decoded ys)"
          "list_all2 (captures ((rs @ [?r]) @ map (request env) (decoded ys)))
             (matchers (record_request s ?r)) (matchers s')"
        by (cases y) auto
      have "received tr' = received tr @ (x # ys)" using a(1) by (simp add: received_append)
      moreover have "prefix (x # ys) (msgs inc)" using a(2) Cons by simp
      moreover have "requests s' = requests s @ map (request env) (decoded (x # ys))"
        using a(3) Inr by (simp add: record_request_def)
      moreover have "list_all2 (captures (rs @ map (request env) (decoded (x # ys))))
             (matchers s) (matchers s')"
        using a(4) Inr by (simp add: record_request_def)
      ultimately show ?thesis unfolding y by blast
    qed
  qed
qed

lemma biRecv_post:
  assumes "biRecv env s hs tr inc = Some y"
  shows "(case y of (out, s', tr') \<Rightarrow>
      \<exists>xs. received tr' = received tr @ xs \<and> prefix xs (msgs inc) \<and>
           requests s' = requests s @ map (request env) (decoded xs) \<and>
           list_all2 (captures (map (request env) (decoded xs))) (matchers s) (matchers s'))"
  using assms
proof (induction rule: biRecv.raw_induct[rotated, consumes 1])
  case (1 f env s hs tr inc y)
  show ?case
  proof (cases "msgs inc")
    case Nil
    then have rm: "RecvMsg inc = (Inl (final inc), inc)" by (rule RecvMsg_Nil)
    with 1(2) have "\<exists>out. y = (out, s, tr)" by (auto split: if_splits)
    then show ?thesis by (auto simp: captures_all_refl)
  next
    case (Cons x xs)
    then have rm: "RecvMsg inc = (Inr x, inc\<lparr>msgs := xs\<rparr>)" by (rule RecvMsg_Cons)
    have rx: "received (tr @ [Received x]) = received tr @ [x]" by (simp add: received_append)
    have px: "prefix [x] (msgs inc)" using Cons by simp
    show ?thesis
    proof (cases x)
      case (Inl e)
      with 1(2) rm have y: "y = (Error e, s, tr @ [Received x])" by simp
      have "decoded [x] = []" using Inl by simp
      with rx px show ?thesis unfolding y by (auto simp: captures_all_refl)
    next
      case (Inr d)
      let ?r = "request env d"
      let ?s1 = "record_request s ?r"
      obtain c ms' hs' tr1 where
        sc: "biScan env ?r (matchers ?s1) hs (tr @ [Received x]) = (c, ms', hs', tr1)"
        by (cases "biScan env ?r (matchers ?s1) hs (tr @ [Received x])")
      from biScan_post[OF sc] have cap: "list_all2 (captures [?r]) (matchers s) ms'"
        and r1: "received tr1 = received tr @ [x]"
        by (simp_all add: record_request_def rx)
      have dx: "decoded [x] = [d]" using Inr by simp
      show ?thesis
      proof (cases c)
        case (Return out)
        with 1(2) rm Inr sc have y: "y = (out, ?s1\<lparr>matchers := ms'\<rparr>, tr1)" by simp
        have "requests (?s1\<lparr>matchers := ms'\<rparr>) = requests s @ map (request env) (decoded [x])"
          by (simp add: record_request_def dx)
        with r1 px cap dx show ?thesis unfolding y by (intro case_prodI exI[of _ "[x]"]) simp
      next
        case Continue
        with 1(2) rm Inr sc have
          "f env (?s1\<lparr>matchers := ms'\<rparr>) hs' tr1 (inc\<lparr>msgs := xs\<rparr>) = Some y" by simp
        from 1(1)[OF this] obtain out s' tr' ys where y: "y = (out, s', tr')"
          and a: "received tr' = received tr1 @ ys" "prefix ys xs"
            "requests s' = requests (?s1\<lparr>matchers := ms'\<rparr>) @ map (request env) (decoded ys)"
            "list_all2 (captures (map (request env) (decoded ys))) ms' (matchers s')"
          by (cases y) auto
        have "received tr' = received tr @ (x # ys)" using a(1) r1 by simp
        moreover have "prefix (x # ys) (msgs inc)" using a(2) Cons by simp
        moreover have "requests s' = requests s @ map (request env) (decoded (x # ys))"
          using a(3) Inr by (simp add: record_request_def)
        moreover have "list_all2 (captures (map (request env) (decoded (x # ys))))
               (matchers s) (matchers s')"
          using captures_all_trans[OF cap a(4)] Inr by simp
        ultimately show ?thesis unfolding y by blast
      qed
    qed
  qed
qed

lemma biRecv_returns: "\<exists>y. biRecv env s hs tr inc = Some y"
proof (induction "msgs inc" arbitrary: s hs tr inc)
  case Nil
  then have "RecvMsg inc = (Inl (final inc), inc)" by (simp add: RecvMsg_Nil)
  then show ?case by (subst biRecv.simps) simp
next
  case (Cons x xs)
  from Cons.hyps(2) have rm: "RecvMsg inc = (Inr x, inc\<lparr>msgs := xs\<rparr>)"
    by (simp add: RecvMsg_Cons)
  have ih: "\<exists>y. biRecv env s' hs' tr' (inc\<lparr>msgs := xs\<rparr>) = Some y" for s' hs' tr'
    by (rule Cons.hyps(1)) simp
  show ?case
  proof (cases x)
    case (Inl e)
    with rm show ?thesis by (subst biRecv.simps) simp
  next
    case (Inr d)
    obtain c ms' hs' tr1 where
      sc: "biScan env (request env d) (matchers (record_request s (request env d))) hs
             (tr @ [Received x]) = (c, ms', hs', tr1)"
      by (cases "biScan env (request env d) (matchers (record_request s (request env d))) hs
             (tr @ [Received x])")
    show ?thesis
    proof (cases c)
      case Continue
      with rm Inr sc ih show ?thesis by (subst biRecv.simps) simp
    next
      case (Return out)
      with rm Inr sc show ?thesis by (subst biRecv.simps) simp
    qed
  qed
qed

lemma captures_passingLogs:
  "list_all2 (captures rs) ms ms' \<Longrightarrow> passingLogs ms \<Longrightarrow> passingLogs ms'"
proof (induction rule: list_all2_induct)
  case Nil
  then show ?case by simp
next
  case (Cons m ms m' ms')
  from Cons.hyps(1) obtain added where a: "matchFuncs m' = matchFuncs m"
    "mrequests m' = mrequests m @ added" "list_all (evaluate m) added"
    unfolding captures_def by blast
  have "evaluate m' = evaluate m" using a(1) by (rule evaluate_matchFuncs)
  with a Cons show ?case by (simp add: passingLogs_def)
qed

lemma createUnaryHandler_post:
  assumes "createUnaryHandler env s dec = (out, s', tr)"
  shows "requests s' = requests s @ map (request env) (decoded [dec])"
    and "list_all2 (captures (map (request env) (decoded [dec]))) (matchers s) (matchers s')"
proof -
  have "requests s' = requests s @ map (request env) (decoded [dec]) \<and>
        list_all2 (captures (map (request env) (decoded [dec]))) (matchers s) (matchers s')"
  proof (cases dec)
    case (Inl e)
    with assms show ?thesis by (simp add: createUnaryHandler_def captures_all_refl)
  next
    case (Inr d)
    let ?r = "request env d"
    obtain o1 ms' t1 where sc: "unaryScan env ?r (matchers s) = (o1, ms', t1)"
      by (cases "unaryScan env ?r (matchers s)")
    with assms Inr have "s' = record_request s ?r\<lparr>matchers := ms'\<rparr>"
      by (simp add: createUnaryHandler_def Let_def record_request_def)
    with unaryScan_captures[OF sc] Inr show ?thesis by (simp add: record_request_def)
  qed
  then show "requests s' = requests s @ map (request env) (decoded [dec])"
    and "list_all2 (captures (map (request env) (decoded [dec]))) (matchers s) (matchers s')"
    by simp_all
qed

lemma createServerStreamingHandler_post:
  assumes "createServerStreamingHandler env s inc = (out, s', tr)"
  shows "prefix (received tr) (msgs inc) \<and> requests s' = requests s @ docs env tr \<and>
         list_all2 (captures (docs env tr)) (matchers s) (matchers s')"
proof (cases "msgs inc")
  case Nil
  with assms show ?thesis
    by (simp add: createServerStreamingHandler_def RecvMsg_Nil docs_def captures_all_refl)
next
  case (Cons x xs)
  show ?thesis
  proof (cases x)
    case (Inl e)
    with assms Cons show ?thesis
      by (auto simp: createServerStreamingHandler_def RecvMsg_Cons docs_def captures_all_refl)
  next
    case (Inr d)
    let ?r = "request env d"
    obtain o1 ms' t1 where sc: "serverScan env ?r (matchers s) [Received (Inr d)] = (o1, ms', t1)"
      by (cases "serverScan env ?r (matchers s) [Received (Inr d)]")
    with assms Cons Inr have "s' = record_request s ?r\<lparr>matchers := ms'\<rparr>" "tr = t1"
      by (simp_all add: createServerStreamingHandler_doc)
    with serverScan_post[OF sc] Cons Inr show ?thesis
      by (simp add: record_request_def docs_def)
  qed
qed

lemma createClientStreamingHandler_post:
  assumes "createClientStreamingHandler env s inc = Some (out, s', tr)"
  shows "prefix (received tr) (msgs inc) \<and> requests s' = requests s @ docs env tr \<and>
         list_all2 (captures (docs env tr)) (matchers s) (matchers s')"
  using clientRecv_post[OF assms[unfolded createClientStreamingHandler_def]]
  by (auto simp: docs_def)

lemma createBiStreamingHandler_post:
  assumes "createBiStreamingHandler env s inc = Some (out, s', tr)"
  shows "prefix (received tr) (msgs inc) \<and> requests s' = requests s @ docs env tr \<and>
         list_all2 (captures (docs env tr)) (matchers s) (matchers s')"
  using biRecv_post[OF assms[unfolded createBiStreamingHandler_def]]
  by (auto simp: docs_def)

section \<open>The global capture log\<close>

text \<open>The receive loop of a client-streaming call, turn by turn.\<close>

lemma clientTurns_post:
  "clientTurns n env s rs tr inc = (res, s', tr') \<Longrightarrow>
   \<exists>xs. received tr' = received tr @ xs \<and> prefix xs (msgs inc) \<and>
        requests s' = requests s @ map (request env) (decoded xs) \<and>
        (res = None \<longrightarrow> xs = take n (msgs inc))"
proof (induction n arbitrary: s rs tr inc)
  case 0
  then show ?case by simp
next
  case (Suc n)
  show ?case
  proof (cases "msgs inc")
    case Nil
    then have rm: "RecvMsg inc = (Inl (final inc), inc)" by (rule RecvMsg_Nil)
    show ?thesis
    proof (cases "final inc = EOF")
      case True
      obtain out ms' t1 where sc: "clientScan env rs (matchers s) tr = (out, ms', t1)"
        by (cases "clientScan env rs (matchers s) tr")
      with Suc.prems rm True have "res = Some out" "s' = s\<lparr>matchers := ms'\<rparr>" "tr' = t1"
        by simp_all
      with clientScan_post[OF sc] show ?thesis by simp
    next
      case False
      with Suc.prems rm have "clientTurns n env s rs tr inc = (res, s', tr')" by simp
      from Suc.IH[OF this] Nil show ?thesis by simp
    qed
  next
    case (Cons x xs)
    then have rm: "RecvMsg inc = (Inr x, inc\<lparr>msgs := xs\<rparr>)" by (rule RecvMsg_Cons)
    show ?thesis
    proof (cases x)
      case (Inl e)
      with Suc.prems rm have "res = Some (Error e)" "s' = s" "tr' = tr @ [Received x]"
        by simp_all
      moreover have "decoded [x] = []" using Inl by simp
      ultimately show ?thesis using Cons
        by (intro exI[of _ "[x]"]) (simp add: received_append)
    next
      case (Inr d)
      let ?r = "request env d"
      from Suc.prems rm Inr have
        "clientTurns n env (record_request s ?r) (rs @ [?r]) (tr @ [Received x])
           (inc\<lparr>msgs := xs\<rparr>) = (res, s', tr')" by simp
      from Suc.IH[OF this] obtain ys where
        a: "received tr' = received (tr @ [Received x]) @ ys" "prefix ys xs"
          "requests s' = requests (record_request s ?r) @ map (request env) (decoded ys)"
          "res = None \<longrightarrow> ys = take n xs"
        by auto
      have "received tr' = received tr @ (x # ys)" using a(1) by (simp add: received_append)
      moreover have "prefix (x # ys) (msgs inc)" using a(2) Cons by simp
      moreover have "requests s' = requests s @ map (request env) (decoded (x # ys))"
        using a(3) Inr by (simp add: record_request_def)
      moreover have "res = None \<longrightarrow> x # ys = take (Suc n) (msgs inc)" using a(4) Cons by simp
      ultimately show ?thesis by blast
    qed
  qed
qed

lemma clientTurns_clientRecv:
  "clientTurns n env s rs tr inc = (Some out, s', tr') \<Longrightarrow>
   clientRecv env s rs tr inc = Some (out, s', tr')"
proof (induction n arbitrary: s rs tr inc)
  case 0
  then show ?case by simp
next
  case (Suc n)
  show ?case
  proof (cases "msgs inc")
    case Nil
    then have rm: "RecvMsg inc = (Inl (final inc), inc)" by (rule RecvMsg_Nil)
    show ?thesis
    proof (cases "final inc = EOF")
      case True
      with Suc.prems rm show ?thesis
        by (subst clientRecv.simps) (auto split: prod.splits)
    next
      case False
      with Suc.prems rm have "clientTurns n env s rs tr inc = (Some out, s', tr')" by simp
      from Suc.IH[OF this] False rm show ?thesis
        by (subst clientRecv.simps) simp
    qed
  next
    case (Cons x xs)
    then have rm: "RecvMsg inc = (Inr x, inc\<lparr>msgs := xs\<rparr>)" by (rule RecvMsg_Cons)
    show ?thesis
    proof (cases x)
      case (Inl e)
      with Suc.prems rm show ?thesis by (subst clientRecv.simps) simp
    next
      case (Inr d)
      with Suc.prems rm have
        "clientTurns n env (record_request s (request env d)) (rs @ [request env d])
           (tr @ [Received x]) (inc\<lparr>msgs := xs\<rparr>) = (Some out, s', tr')" by simp
      from Suc.IH[OF this] rm Inr show ?thesis by (subst clientRecv.simps) simp
    qed
  qed
qed

lemma clientRecv_clientTurns:
  assumes "clientRecv env s rs tr inc = Some y"
  shows "\<exists>n. clientTurns n env s rs tr inc = (Some (fst y), snd y)"
  using assms
proof (induction rule: clientRecv.raw_induct[rotated, consumes 1])
  case (1 f env s rs tr inc y)
  show ?case
  proof (cases "msgs inc")
    case Nil
    then have rm: "RecvMsg inc = (Inl (final inc), inc)" by (rule RecvMsg_Nil)
    show ?thesis
    proof (cases "final inc = EOF")
      case True
      with 1(2) rm have "clientTurns (Suc 0) env s rs tr inc = (Some (fst y), snd y)"
        by (auto split: prod.splits)
      then show ?thesis ..
    next
      case False
      with 1(2) rm have "f env s rs tr inc = Some y" by simp
      from 1(1)[OF this] obtain n where "clientTurns n env s rs tr inc = (Some (fst y), snd y)" ..
      with False rm have "clientTurns (Suc n) env s rs tr inc = (Some (fst y), snd y)" by simp
      then show ?thesis ..
    qed
  next
    case (Cons x xs)
    then have rm: "RecvMsg inc = (Inr x, inc\<lparr>msgs := xs\<rparr>)" by (rule RecvMsg_Cons)
    show ?thesis
    proof (cases x)
      case (Inl e)
      with 1(2) rm have "clientTurns (Suc 0) env s rs tr inc = (Some (fst y), snd y)" by auto
      then show ?thesis ..
    next
      case (Inr d)
      let ?r = "request env d"
      from 1(2) rm Inr have
        "f env (record_request s ?r) (rs @ [?r]) (tr @ [Received x]) (inc\<lparr>msgs := xs\<rparr>)
           = Some y" by simp
      from 1(1)[OF this] obtain n where
        "clientTurns n env (record_request s ?r) (rs @ [?r]) (tr @ [Received x])
           (inc\<lparr>msgs := xs\<rparr>) = (Some (fst y), snd y)" ..
      with rm Inr have "clientTurns (Suc n) env s rs tr inc = (Some (fst y), snd y)" by simp
      then show ?thesis ..
    qed
  qed
qed

lemma clientTurns_returned:
  "clientTurns n env s rs tr inc = (Some out, s', tr') \<Longrightarrow>
   final inc = EOF \<or> (\<exists>e. Inl e \<in> set (msgs inc))"
proof (induction n arbitrary: s rs tr inc)
  case 0
  then show ?case by simp
next
  case (Suc n)
  show ?case
  proof (cases "msgs inc")
    case Nil
    then have rm: "RecvMsg inc = (Inl (final inc), inc)" by (rule RecvMsg_Nil)
    show ?thesis
    proof (cases "final inc = EOF")
      case True
      then show ?thesis by simp
    next
      case False
      with Suc.prems rm have "clientTurns n env s rs tr inc = (Some out, s', tr')" by simp
      from Suc.IH[OF this] show ?thesis .
    qed
  next
    case (Cons x xs)
    then have rm: "RecvMsg inc = (Inr x, inc\<lparr>msgs := xs\<rparr>)" by (rule RecvMsg_Cons)
    show ?thesis
    proof (cases x)
      case (Inl e)
      with Cons show ?thesis by auto
    next
      case (Inr d)
      with Suc.prems rm have
        "clientTurns n env (record_request s (request env d)) (rs @ [request env d])
           (tr @ [Received x]) (inc\<lparr>msgs := xs\<rparr>) = (Some out, s', tr')" by simp
      from Suc.IH[OF this] Cons show ?thesis by auto
    qed
  qed
qed

lemma clientTurns_returns:
  "final inc = EOF \<or> (\<exists>e. Inl e \<in> set (msgs inc)) \<Longrightarrow>
   \<exists>out s' tr'. clientTurns (Suc (length (msgs inc))) env s rs tr inc = (Some out, s', tr')"
proof (induction "msgs inc" arbitrary: s rs tr inc)
  case Nil
  then have rm: "RecvMsg inc = (Inl (final inc), inc)" and f: "final inc = EOF"
    by (simp_all add: RecvMsg_Nil)
  obtain out ms' t1 where "clientScan env rs (matchers s) tr = (out, ms', t1)"
    by (cases "clientScan env rs (matchers s) tr")
  with rm f Nil(1)[symmetric] show ?case by simp
next
  case (Cons x xs)
  from Cons.hyps(2) have rm: "RecvMsg inc = (Inr x, inc\<lparr>msgs := xs\<rparr>)"
    by (simp add: RecvMsg_Cons)
  show ?case
  proof (cases x)
    case (Inl e)
    with rm show ?thesis by simp
  next
    case (Inr d)
    with Cons.prems Cons.hyps(2)[symmetric]
    have p: "final (inc\<lparr>msgs := xs\<rparr>) = EOF \<or> (\<exists>e. Inl e \<in> set (msgs (inc\<lparr>msgs := xs\<rparr>)))"
      by auto
    have ih: "\<exists>out s' tr'. clientTurns (Suc (length xs)) env s1 rs1 tr1 (inc\<lparr>msgs := xs\<rparr>)
                 = (Some out, s', tr')" for s1 rs1 tr1
      using Cons.hyps(1)[of "inc\<lparr>msgs := xs\<rparr>"] p by simp
    from ih[of "record_request s (request env d)" "rs @ [request env d]" "tr @ [Received x]"]
      rm Inr Cons.hyps(2)[symmetric]
    show ?thesis by simp
  qed
qed

lemma clientTurns_spin:
  "msgs inc = [] \<Longrightarrow> final inc \<noteq> EOF \<Longrightarrow> clientTurns n env s rs tr inc = (None, s, tr)"
  by (induction n) (simp_all add: RecvMsg_Nil)


lemma createClientStreamingHandler_turns:
  "createClientStreamingHandler env s inc = Some (out, s', tr) \<longleftrightarrow>
   (\<exists>n. clientTurns n env s [] [] inc = (Some out, s', tr))"
proof
  assume "createClientStreamingHandler env s inc = Some (out, s', tr)"
  then have "clientRecv env s [] [] inc = Some (out, s', tr)"
    by (simp add: createClientStreamingHandler_def)
  from clientRecv_clientTurns[OF this] show "\<exists>n. clientTurns n env s [] [] inc = (Some out, s', tr)"
    by simp
next
  assume "\<exists>n. clientTurns n env s [] [] inc = (Some out, s', tr)"
  then obtain n where "clientTurns n env s [] [] inc = (Some out, s', tr)" ..
  then show "createClientStreamingHandler env s inc = Some (out, s', tr)"
    unfolding createClientStreamingHandler_def by (rule clientTurns_clientRecv)
qed

lemma createClientStreamingHandler_returns:
  "(\<exists>y. createClientStreamingHandler env s inc = Some y) \<longleftrightarrow>
   final inc = EOF \<or> (\<exists>e. Inl e \<in> set (msgs inc))"
proof
  assume "\<exists>y. createClientStreamingHandler env s inc = Some y"
  then obtain out s' tr where "createClientStreamingHandler env s inc = Some (out, s', tr)"
    by auto
  then obtain n where "clientTurns n env s [] [] inc = (Some out, s', tr)"
    unfolding createClientStreamingHandler_turns ..
  then show "final inc = EOF \<or> (\<exists>e. Inl e \<in> set (msgs inc))" by (rule clientTurns_returned)
next
  assume "final inc = EOF \<or> (\<exists>e. Inl e \<in> set (msgs inc))"
  from clientTurns_returns[OF this, of env s "[]" "[]"] obtain out s' tr where
    "clientTurns (Suc (length (msgs inc))) env s [] [] inc = (Some out, s', tr)" by blast
  then have "createClientStreamingHandler env s inc = Some (out, s', tr)"
    unfolding createClientStreamingHandler_turns by blast
  then show "\<exists>y. createClientStreamingHandler env s inc = Some y" ..
qed

lemma clientTurns_log:
  assumes "clientTurns n env s [] [] inc = (res, s', tr)"
  shows "prefix (received tr) (msgs inc)" and "requests s' = requests s @ docs env tr"
    and "res = None \<longrightarrow> received tr = take n (msgs inc)"
  using clientTurns_post[OF assms] by (auto simp: docs_def)

text \<open>
  Claim C2. In every call shape the global log of the server grows, over a call, by
  exactly the requests built from the documents the call received, one entry for each,
  in receipt order. It holds whatever the outcome of the call is (a reply, an error,
  not-found, a panic) and whatever number of matchers pass. For the streaming shapes
  the messages the call took from its stream are in its trace; for the unary shape
  \<open>dec\<close> is the one message. The unary and the server-streaming handler are total
  functions and the bidirectional handler always returns. The client-streaming handler
  returns exactly when its stream ends with end-of-input or holds a message that
  cannot be decoded; otherwise it stays in its receive loop for ever. So for that
  shape the log is also described at every turn of the loop: after \<open>n\<close> turns,
  returned or not, the log has grown by the requests of the documents received so far,
  and a call that is still in the loop has received the first \<open>n\<close> messages of
  its stream (all of them, once \<open>n\<close> reaches their number).
\<close>

theorem global_log_records_each_request_once:
  "(createUnaryHandler env s dec = (out, s', tr) \<longrightarrow>
      requests s' = requests s @ map (request env) (decoded [dec])) \<and>
   (createServerStreamingHandler env s inc = (out, s', tr) \<longrightarrow>
      prefix (received tr) (msgs inc) \<and> requests s' = requests s @ docs env tr) \<and>
   (createClientStreamingHandler env s inc = Some (out, s', tr) \<longrightarrow>
      prefix (received tr) (msgs inc) \<and> requests s' = requests s @ docs env tr) \<and>
   (createBiStreamingHandler env s inc = Some (out, s', tr) \<longrightarrow>
      prefix (received tr) (msgs inc) \<and> requests s' = requests s @ docs env tr) \<and>
   (\<exists>y. createBiStreamingHandler env s inc = Some y) \<and>
   ((\<exists>y. createClientStreamingHandler env s inc = Some y) \<longleftrightarrow>
      final inc = EOF \<or> (\<exists>e. Inl e \<in> set (msgs inc))) \<and>
   (createClientStreamingHandler env s inc = Some (out, s', tr) \<longleftrightarrow>
      (\<exists>n. clientTurns n env s [] [] inc = (Some out, s', tr))) \<and>
   (clientTurns n env s [] [] inc = (res, s', tr) \<longrightarrow>
      prefix (received tr) (msgs inc) \<and> requests s' = requests s @ docs env tr \<and>
      (res = None \<longrightarrow> received tr = take n (msgs inc)))"
proof (intro conjI impI)
  assume "createUnaryHandler env s dec = (out, s', tr)"
  then show "requests s' = requests s @ map (request env) (decoded [dec])"
    by (rule createUnaryHandler_post(1))
next
  assume a: "createServerStreamingHandler env s inc = (out, s', tr)"
  from createServerStreamingHandler_post[OF a]
  show "prefix (received tr) (msgs inc)" and "requests s' = requests s @ docs env tr"
    by simp_all
next
  assume a: "createClientStreamingHandler env s inc = Some (out, s', tr)"
  from createClientStreamingHandler_post[OF a]
  show "prefix (received tr) (msgs inc)" and "requests s' = requests s @ docs env tr"
    by simp_all
next
  assume a: "createBiStreamingHandler env s inc = Some (out, s', tr)"
  from createBiStreamingHandler_post[OF a]
  show "prefix (received tr) (msgs inc)" and "requests s' = requests s @ docs env tr"
    by simp_all
next
  show "\<exists>y. createBiStreamingHandler env s inc = Some y"
    unfolding createBiStreamingHandler_def by (rule biRecv_returns)
next
  show "(\<exists>y. createClientStreamingHandler env s inc = Some y) \<longleftrightarrow>
      final inc = EOF \<or> (\<exists>e. Inl e \<in> set (msgs inc))"
    by (rule createClientStreamingHandler_returns)
next
  show "createClientStreamingHandler env s inc = Some (out, s', tr) \<longleftrightarrow>
      (\<exists>n. clientTurns n env s [] [] inc = (Some out, s', tr))"
    by (rule createClientStreamingHandler_turns)
next
  assume a: "clientTurns n env s [] [] inc = (res, s', tr)"
  from clientTurns_log[OF a]
  show "prefix (received tr) (msgs inc)" and "requests s' = requests s @ docs env tr"
    by simp_all
next
  assume a: "clientTurns n env s [] [] inc = (res, s', tr)" and "res = None"
  with clientTurns_log(3)[OF a] show "received tr = take n (msgs inc)" by simp
qed

section \<open>The capture logs of the matchers\<close>

text \<open>
  Claim C7. In every call shape, a call leaves the predicates of every matcher as they
  were and extends its capture log, at the end, by requests the call received, in
  receipt order, each of which passes every predicate of that matcher. So a call never
  adds a request that fails a predicate of the matcher, and logs that hold only passing
  requests before a call hold only passing requests after it. They do on a new server,
  and registering a matcher keeps it so.
\<close>

theorem matcher_logs_capture_only_passing_requests:
  "(createUnaryHandler env s dec = (out, s', tr) \<longrightarrow>
      list_all2 (captures (map (request env) (decoded [dec]))) (matchers s) (matchers s')) \<and>
   (createServerStreamingHandler env s inc = (out, s', tr) \<longrightarrow>
      list_all2 (captures (docs env tr)) (matchers s) (matchers s')) \<and>
   (createClientStreamingHandler env s inc = Some (out, s', tr) \<longrightarrow>
      list_all2 (captures (docs env tr)) (matchers s) (matchers s')) \<and>
   (createBiStreamingHandler env s inc = Some (out, s', tr) \<longrightarrow>
      list_all2 (captures (docs env tr)) (matchers s) (matchers s')) \<and>
   (list_all2 (captures rs) (matchers s) (matchers s') \<and> passingLogs (matchers s) \<longrightarrow>
      passingLogs (matchers s')) \<and>
   passingLogs (matchers (newServer hc)) \<and>
   (passingLogs (matchers s) \<longrightarrow>
      passingLogs (matchers (Server_Match s fn)) \<and>
      passingLogs (matchers (Server_Service s service)) \<and>
      passingLogs (matchers (Server_Method s method)))"
proof (intro conjI impI)
  assume "createUnaryHandler env s dec = (out, s', tr)"
  then show "list_all2 (captures (map (request env) (decoded [dec]))) (matchers s) (matchers s')"
    by (rule createUnaryHandler_post(2))
next
  assume a: "createServerStreamingHandler env s inc = (out, s', tr)"
  from createServerStreamingHandler_post[OF a]
  show "list_all2 (captures (docs env tr)) (matchers s) (matchers s')" by simp
next
  assume a: "createClientStreamingHandler env s inc = Some (out, s', tr)"
  from createClientStreamingHandler_post[OF a]
  show "list_all2 (captures (docs env tr)) (matchers s) (matchers s')" by simp
next
  assume a: "createBiStreamingHandler env s inc = Some (out, s', tr)"
  from createBiStreamingHandler_post[OF a]
  show "list_all2 (captures (docs env tr)) (matchers s) (matchers s')" by simp
next
  assume "list_all2 (captures rs) (matchers s) (matchers s') \<and> passingLogs (matchers s)"
  then show "passingLogs (matchers s')" using captures_passingLogs by blast
next
  show "passingLogs (matchers (newServer hc))" by (simp add: passingLogs_def newServer_def)
next
  assume "passingLogs (matchers s)"
  then show "passingLogs (matchers (Server_Match s fn))"
    and "passingLogs (matchers (Server_Service s service))"
    and "passingLogs (matchers (Server_Method s method))"
    by (simp_all add: passingLogs_def Server_Match_def Server_Service_def Server_Method_def)
qed

section \<open>Bidirectional streaming: end of input and no match\<close>

lemma biRecv_EOF:
  "msgs inc = [] \<Longrightarrow> final inc = EOF \<Longrightarrow> biRecv env s hs tr inc = Some (Done, s, tr)"
  by (subst biRecv.simps) (simp add: RecvMsg_Nil)

lemma biRecv_noMatch:
  "msgs inc = Inr doc # rest \<Longrightarrow> noMatch (matchers s) (request env doc) \<Longrightarrow>
   biRecv env s hs tr inc =
     Some (Error notFound, record_request s (request env doc), tr @ [Received (Inr doc)])"
  by (subst biRecv.simps)
     (simp add: RecvMsg_Cons biScan_noMatch record_request_def)

lemma biRecv_Continue:
  "msgs inc = Inr doc # rest \<Longrightarrow>
   biScan env (request env doc) (matchers s) hs (tr @ [Received (Inr doc)])
     = (Continue, ms', hs', tr') \<Longrightarrow>
   biRecv env s hs tr inc =
     biRecv env (record_request s (request env doc)\<lparr>matchers := ms'\<rparr>) hs' tr'
       (inc\<lparr>msgs := rest\<rparr>)"
  by (subst biRecv.simps) (simp add: RecvMsg_Cons record_request_def)

text \<open>
  Claim C8. \<open>biRecv env s hs tr inc\<close> is the receive loop of a bidirectional call
  at any of its iterations: \<open>s\<close> is the server then, \<open>hs\<close> the flag
  \<^verbatim>\<open>headerSent\<close>, \<open>tr\<close> what has happened so far and \<open>inc\<close> what is still to
  come; the handler is the loop from \<open>False\<close> and the empty trace. When the next
  receive gives end-of-input the call returns \<^verbatim>\<open>nil\<close> and changes nothing more.
  When it gives a document on which no matcher passes, the call returns not-found at
  once, the request being in the global log. And the call always returns.
\<close>

theorem bidi_end_of_input_and_no_match:
  "createBiStreamingHandler env s inc = biRecv env s False [] inc \<and>
   (msgs inc = [] \<and> final inc = EOF \<longrightarrow> biRecv env s hs tr inc = Some (Done, s, tr)) \<and>
   (msgs inc = Inr doc # rest \<and> noMatch (matchers s) (request env doc) \<longrightarrow>
      biRecv env s hs tr inc =
        Some (Error notFound, s\<lparr>requests := requests s @ [request env doc]\<rparr>,
              tr @ [Received (Inr doc)])) \<and>
   (\<exists>y. biRecv env s hs tr inc = Some y)"
  using biRecv_EOF[of inc env s hs tr] biRecv_noMatch[of inc doc rest s env hs tr]
    biRecv_returns[of env s hs tr inc]
  by (simp add: createBiStreamingHandler_def record_request_def)

section \<open>Example calls\<close>

lemma unaryScan_twoServer:
  "unaryScan env0 ping [pingMatcher, svcMatcher] =
     (Reply [(''ok'', JBool True)], [capture pingMatcher ping, svcMatcher], [])"
  using handler_invoke[OF invoke_pingMatcher[of ping]]
  by (auto simp: matched_eq_evaluate evaluate_pingMatcher unaryRespond_ping)

lemma unary_example:
  "createUnaryHandler env0 twoServer (Inr []) =
     (Reply [(''ok'', JBool True)],
      twoServer\<lparr>requests := [ping], matchers := [capture pingMatcher ping, svcMatcher]\<rparr>, [])"
  by (simp add: createUnaryHandler_def Let_def request_env0 record_request_def
      unaryScan_twoServer twoServer_def newServer_def del: unaryScan.simps)

lemma invoke_svcMatcher:
  "invoke svcMatcher r = Some \<lparr>Headers = [], Messages = [[(''ok'', JBool False)]], Trailers = [], Status = None\<rparr>"
  by (simp add: svcMatcher_def invoke_Response previous_None NewResponse_def)

lemma serverScan_twoServer:
  "serverScan env0 ping [pingMatcher, svcMatcher] [Received (Inr [])] =
     (Done, [capture pingMatcher ping, capture svcMatcher ping],
      [Received (Inr []), SendMsg [(''ok'', JBool True)], SendMsg [(''ok'', JBool False)]])"
  using handler_invoke[OF invoke_pingMatcher[of ping]] handler_invoke[OF invoke_svcMatcher[of ping]]
  by (auto simp: matched_eq_evaluate evaluate_pingMatcher evaluate_svcMatcher Let_def entries_def
      setTrailers_def Status_Err_def emit_accepting[OF accepting_env0] Encode_env0)

lemma server_example:
  "createServerStreamingHandler env0 twoServer oneMessage =
     (Done,
      twoServer\<lparr>requests := [ping],
                 matchers := [capture pingMatcher ping, capture svcMatcher ping]\<rparr>,
      [Received (Inr []), SendMsg [(''ok'', JBool True)], SendMsg [(''ok'', JBool False)]])"
  by (simp add: createServerStreamingHandler_doc[where doc="[]" and rest="[]"] oneMessage_def
      request_env0 record_request_def serverScan_twoServer twoServer_def newServer_def
      del: serverScan.simps)

lemma clientRespond_ok:
  "clientRespond env0 \<lparr>Headers = [], Messages = [[(''ok'', JBool True)]], Trailers = [], Status = None\<rparr> tr
     = (Done, tr @ [SendMsg [(''ok'', JBool True)]])"
  by (simp add: clientRespond_accepting[OF accepting_env0] Status_Err_def firstMessage_def
      Encode_env0 entries_def setTrailers_def)

lemma client_example:
  "createClientStreamingHandler env0 secondServer threeMessages =
     Some (Done,
           secondServer\<lparr>requests := map (request env0)
                                        [[(''n'', JNumber 1)], [(''n'', JNumber 2)], [(''n'', JNumber 3)]],
                        matchers := [capture secondMatcher (request env0 [(''n'', JNumber 2)])]\<rparr>,
           [Received (Inr [(''n'', JNumber 1)]), Received (Inr [(''n'', JNumber 2)]),
            Received (Inr [(''n'', JNumber 3)]), SendMsg [(''ok'', JBool True)]])"
proof -
  let ?ds = "[[(''n'', JNumber 1)], [(''n'', JNumber 2)], [(''n'', JNumber 3)]] :: Message list"
  have eof: "final threeMessages = EOF" by (simp add: threeMessages_def)
  have ms: "msgs threeMessages = map Inr ?ds" by (simp add: threeMessages_def)
  have fp: "firstPair (matchers secondServer) (map (request env0) ?ds) 1 0"
    by (simp add: secondServer_def firstPair_def firstMatch_def noMatch_def
        evaluate_secondMatcher request_env0_doc)
  obtain h where h: "handler secondMatcher = Some h"
    and hr: "h (request env0 [(''n'', JNumber 2)]) =
      \<lparr>Headers = [], Messages = [[(''ok'', JBool True)]], Trailers = [], Status = None\<rparr>"
    using handler_invoke[OF invoke_secondMatcher] by blast
  have m0: "matchers secondServer = [secondMatcher]" by (simp add: secondServer_def)
  have sc: "clientScan env0 (map (request env0) ?ds) (matchers secondServer)
              (map (\<lambda>d. Received (Inr d)) ?ds) =
            (Done, [capture secondMatcher (request env0 [(''n'', JNumber 2)])],
             map (\<lambda>d. Received (Inr d)) ?ds @ [SendMsg [(''ok'', JBool True)]])"
    by (subst clientScan_firstPair[OF fp]) (simp add: m0 h hr clientRespond_ok)
  show ?thesis
    apply (simp only: createClientStreamingHandler_def clientRecv_docs[OF eof ms])
    apply (simp only: append_Nil sc prod.case)
    apply (simp add: secondServer_def newServer_def)
    done
qed

lemma biScan_second:
  "biScan env0 (request env0 [(''n'', JNumber 2)]) [secondMatcher] False tr =
     (Continue, [capture secondMatcher (request env0 [(''n'', JNumber 2)])], False,
      tr @ [SendMsg [(''ok'', JBool True)]])"
proof -
  obtain h where h: "handler secondMatcher = Some h"
    and hr: "h (request env0 [(''n'', JNumber 2)]) =
      \<lparr>Headers = [], Messages = [[(''ok'', JBool True)]], Trailers = [], Status = None\<rparr>"
    using handler_invoke[OF invoke_secondMatcher] by blast
  have e: "evaluate secondMatcher (request env0 [(''n'', JNumber 2)])"
    by (simp add: evaluate_secondMatcher request_env0_doc)
  show ?thesis
    by (simp add: matched_eq_evaluate e h hr biRespond_def entries_def setTrailers_def
        Status_Err_def Encode_env0 emit_accepting[OF accepting_env0])
qed

lemma evaluate_capture: "evaluate (capture m r') r = evaluate m r"
  by (simp add: evaluate_def capture_def)

lemma noMatch_second:
  "noMatch [capture secondMatcher r] (request env0 [(''n'', JNumber 1)])"
  by (simp add: noMatch_def evaluate_capture evaluate_secondMatcher request_env0_doc)

lemma bidi_first_step:
  "msgs inc = Inr [(''n'', JNumber 2)] # rest \<Longrightarrow>
   createBiStreamingHandler env0 secondServer inc =
     biRecv env0
       (secondServer\<lparr>requests := [request env0 [(''n'', JNumber 2)]],
                    matchers := [capture secondMatcher (request env0 [(''n'', JNumber 2)])]\<rparr>)
       False [Received (Inr [(''n'', JNumber 2)]), SendMsg [(''ok'', JBool True)]]
       (inc\<lparr>msgs := rest\<rparr>)"
  unfolding createBiStreamingHandler_def
  by (subst biRecv_Continue[where ms'="[capture secondMatcher (request env0 [(''n'', JNumber 2)])]"
        and hs'=False and tr'="[Received (Inr [(''n'', JNumber 2)]), SendMsg [(''ok'', JBool True)]]"])
     (simp_all add: secondServer_def biScan_second record_request_def newServer_def
        del: biScan.simps)

lemma bidi_example:
  "createBiStreamingHandler env0 secondServer twoMessages =
     Some (Error notFound,
           secondServer\<lparr>requests := [request env0 [(''n'', JNumber 2)],
                                      request env0 [(''n'', JNumber 1)]],
                        matchers := [capture secondMatcher (request env0 [(''n'', JNumber 2)])]\<rparr>,
           [Received (Inr [(''n'', JNumber 2)]), SendMsg [(''ok'', JBool True)],
            Received (Inr [(''n'', JNumber 1)])])"
  by (subst bidi_first_step[where rest="[Inr [(''n'', JNumber 1)]]"])
     (simp_all add: twoMessages_def
        biRecv_noMatch[where doc="[(''n'', JNumber 1)]" and rest="[]"] noMatch_second
        record_request_def secondServer_def)

text \<open>
  A client-streaming call whose client cancels after one document never returns; its
  one request is in the global log.
\<close>

lemma canceled_example:
  "clientTurns (Suc (Suc n)) env0 secondServer [] [] canceledStream =
     (None, secondServer\<lparr>requests := [request env0 [(''n'', JNumber 1)]]\<rparr>,
      [Received (Inr [(''n'', JNumber 1)])])"
  by (simp add: canceledStream_def RecvMsg_def clientTurns_spin record_request_def
      secondServer_def newServer_def)

theorem global_log_records_each_request_once_witness:
  "requests (fst (snd (createUnaryHandler env0 twoServer (Inr [])))) = [ping] \<and>
   requests (fst (snd (createServerStreamingHandler env0 twoServer oneMessage))) = [ping] \<and>
   (\<exists>out s' tr.
      createClientStreamingHandler env0 secondServer threeMessages = Some (out, s', tr) \<and>
      requests s' =
        [request env0 [(''n'', JNumber 1)], request env0 [(''n'', JNumber 2)],
         request env0 [(''n'', JNumber 3)]]) \<and>
   (\<exists>out s' tr.
      createBiStreamingHandler env0 secondServer twoMessages = Some (out, s', tr) \<and>
      out = Error notFound \<and>
      requests s' = [request env0 [(''n'', JNumber 2)], request env0 [(''n'', JNumber 1)]]) \<and>
   createClientStreamingHandler env0 secondServer canceledStream = None \<and>
   (\<exists>s' tr.
      clientTurns 5 env0 secondServer [] [] canceledStream = (None, s', tr) \<and>
      received tr = msgs canceledStream \<and>
      requests s' = [request env0 [(''n'', JNumber 1)]])"
proof -
  note th = global_log_records_each_request_once
  have r0: "requests twoServer = []" "requests secondServer = []"
    by (simp_all add: twoServer_def secondServer_def newServer_def)
  from th[where env=env0 and s=twoServer and dec="Inr []", THEN conjunct1, THEN mp, OF unary_example]
  have 1: "requests (fst (snd (createUnaryHandler env0 twoServer (Inr [])))) = [ping]"
    unfolding unary_example by (simp add: r0 request_env0)
  from th[where env=env0 and s=twoServer and inc=oneMessage, THEN conjunct2, THEN conjunct1,
      THEN mp, OF server_example, THEN conjunct2]
  have 2: "requests (fst (snd (createServerStreamingHandler env0 twoServer oneMessage))) = [ping]"
    unfolding server_example by (simp add: r0 docs_def request_env0)
  from th[where env=env0 and s=secondServer and inc=threeMessages, THEN conjunct2, THEN conjunct2,
      THEN conjunct1, THEN mp, OF client_example, THEN conjunct2]
  have 3: "\<exists>out s' tr.
      createClientStreamingHandler env0 secondServer threeMessages = Some (out, s', tr) \<and>
      requests s' =
        [request env0 [(''n'', JNumber 1)], request env0 [(''n'', JNumber 2)],
         request env0 [(''n'', JNumber 3)]]"
    unfolding client_example by (simp add: r0 docs_def)
  from th[where env=env0 and s=secondServer and inc=twoMessages, THEN conjunct2, THEN conjunct2,
      THEN conjunct2, THEN conjunct1, THEN mp, OF bidi_example, THEN conjunct2]
  have 4: "\<exists>out s' tr.
      createBiStreamingHandler env0 secondServer twoMessages = Some (out, s', tr) \<and>
      out = Error notFound \<and>
      requests s' = [request env0 [(''n'', JNumber 2)], request env0 [(''n'', JNumber 1)]]"
    unfolding bidi_example by (simp add: r0 docs_def)
  have nr: "\<not> (final canceledStream = EOF \<or> (\<exists>e. Inl e \<in> set (msgs canceledStream)))"
    by (simp add: canceledStream_def)
  from th[where env=env0 and s=secondServer and inc=canceledStream, THEN conjunct2, THEN conjunct2,
      THEN conjunct2, THEN conjunct2, THEN conjunct2, THEN conjunct1] nr
  have 5: "createClientStreamingHandler env0 secondServer canceledStream = None"
    by (cases "createClientStreamingHandler env0 secondServer canceledStream") auto
  have five: "(5::nat) = Suc (Suc 3)" by simp
  have run: "clientTurns 5 env0 secondServer [] [] canceledStream =
     (None, secondServer\<lparr>requests := [request env0 [(''n'', JNumber 1)]]\<rparr>,
      [Received (Inr [(''n'', JNumber 1)])])"
    unfolding five by (rule canceled_example)
  note c = th[where env=env0 and s=secondServer and inc=canceledStream and n=5,
      THEN conjunct2, THEN conjunct2, THEN conjunct2, THEN conjunct2, THEN conjunct2,
      THEN conjunct2, THEN conjunct2, THEN mp, OF run]
  from c[THEN conjunct2, THEN conjunct2, THEN mp, OF refl]
  have a6: "received [Received (Inr [(''n'', JNumber 1)]) :: Message event] = msgs canceledStream"
    by (simp add: canceledStream_def)
  from c[THEN conjunct2, THEN conjunct1]
  have b6: "requests (secondServer\<lparr>requests := [request env0 [(''n'', JNumber 1)]]\<rparr>) =
      [request env0 [(''n'', JNumber 1)]]" by simp
  have 6: "\<exists>s' tr.
      clientTurns 5 env0 secondServer [] [] canceledStream = (None, s', tr) \<and>
      received tr = msgs canceledStream \<and>
      requests s' = [request env0 [(''n'', JNumber 1)]]"
    by (intro exI conjI) (rule run, rule a6, rule b6)
  show ?thesis by (intro conjI 1 2 3 4 5 6)
qed

theorem matcher_logs_capture_only_passing_requests_witness:
  "passingLogs (matchers twoServer) \<and>
   passingLogs (matchers (fst (snd (createServerStreamingHandler env0 twoServer oneMessage)))) \<and>
   map mrequests (matchers (fst (snd (createServerStreamingHandler env0 twoServer oneMessage))))
     = [[ping], [ping]] \<and>
   (\<exists>out s' tr.
      createBiStreamingHandler env0 secondServer twoMessages = Some (out, s', tr) \<and>
      docs env0 tr = [request env0 [(''n'', JNumber 2)], request env0 [(''n'', JNumber 1)]] \<and>
      list_all2 (captures (docs env0 tr)) (matchers secondServer) (matchers s') \<and>
      map mrequests (matchers s') = [[request env0 [(''n'', JNumber 2)]]])"
proof -
  note th = matcher_logs_capture_only_passing_requests
  let ?X = "createServerStreamingHandler env0 twoServer oneMessage"
  have p0: "passingLogs (matchers twoServer)"
    by (simp add: passingLogs_def twoServer_def pingMatcher_def svcMatcher_def
        matcher_Response_def m0_def)
  have run: "?X = (fst ?X, fst (snd ?X), snd (snd ?X))" by simp
  note c = th[where env=env0 and s=twoServer and inc=oneMessage, THEN conjunct2, THEN conjunct1,
      THEN mp, OF run]
  from th[where s=twoServer and s'="fst (snd ?X)", THEN conjunct2, THEN conjunct2, THEN conjunct2,
      THEN conjunct2, THEN conjunct1, THEN mp, OF conjI, OF c p0]
  have 1: "passingLogs (matchers (fst (snd ?X)))" .
  have 2: "map mrequests (matchers (fst (snd ?X))) = [[ping], [ping]]"
    unfolding server_example
    by (simp add: capture_def pingMatcher_def svcMatcher_def matcher_Response_def m0_def)
  let ?s2 = "secondServer\<lparr>requests := [request env0 [(''n'', JNumber 2)],
                                      request env0 [(''n'', JNumber 1)]],
                        matchers := [capture secondMatcher (request env0 [(''n'', JNumber 2)])]\<rparr>"
  let ?tr2 = "[Received (Inr [(''n'', JNumber 2)]), SendMsg [(''ok'', JBool True)],
            Received (Inr [(''n'', JNumber 1)])] :: Message event list"
  note c2 = th[where env=env0 and s=secondServer and inc=twoMessages, THEN conjunct2,
      THEN conjunct2, THEN conjunct2, THEN conjunct1, THEN mp, OF bidi_example]
  have d2: "docs env0 ?tr2 = [request env0 [(''n'', JNumber 2)], request env0 [(''n'', JNumber 1)]]"
    by (simp add: docs_def)
  have m2: "map mrequests (matchers ?s2) = [[request env0 [(''n'', JNumber 2)]]]"
    by (simp add: capture_def secondMatcher_def matcher_Response_def)
  have 3: "\<exists>out s' tr.
      createBiStreamingHandler env0 secondServer twoMessages = Some (out, s', tr) \<and>
      docs env0 tr = [request env0 [(''n'', JNumber 2)], request env0 [(''n'', JNumber 1)]] \<and>
      list_all2 (captures (docs env0 tr)) (matchers secondServer) (matchers s') \<and>
      map mrequests (matchers s') = [[request env0 [(''n'', JNumber 2)]]]"
    by (intro exI conjI) (rule bidi_example, rule d2, rule c2, rule m2)
  show ?thesis by (intro conjI p0 1 2 3)
qed

theorem bidi_end_of_input_and_no_match_witness:
  "createBiStreamingHandler env0 secondServer \<lparr>msgs = [Inr [(''n'', JNumber 2)]], final = EOF\<rparr> =
     Some (Done,
           secondServer\<lparr>requests := [request env0 [(''n'', JNumber 2)]],
                        matchers := [capture secondMatcher (request env0 [(''n'', JNumber 2)])]\<rparr>,
           [Received (Inr [(''n'', JNumber 2)]), SendMsg [(''ok'', JBool True)]]) \<and>
   createBiStreamingHandler env0 secondServer twoMessages =
     Some (Error notFound,
           secondServer\<lparr>requests := [request env0 [(''n'', JNumber 2)],
                                      request env0 [(''n'', JNumber 1)]],
                        matchers := [capture secondMatcher (request env0 [(''n'', JNumber 2)])]\<rparr>,
           [Received (Inr [(''n'', JNumber 2)]), SendMsg [(''ok'', JBool True)],
            Received (Inr [(''n'', JNumber 1)])])"
proof -
  note th = bidi_end_of_input_and_no_match
  let ?s1 = "secondServer\<lparr>requests := [request env0 [(''n'', JNumber 2)]],
                        matchers := [capture secondMatcher (request env0 [(''n'', JNumber 2)])]\<rparr>"
  let ?tr1 = "[Received (Inr [(''n'', JNumber 2)]), SendMsg [(''ok'', JBool True)]] :: Message event list"
  let ?i1 = "\<lparr>msgs = [Inr [(''n'', JNumber 2)]], final = EOF\<rparr>"
  have e: "msgs (?i1\<lparr>msgs := []\<rparr>) = [] \<and> final (?i1\<lparr>msgs := []\<rparr>) = EOF" by simp
  note fin = th[where env=env0 and s="?s1" and hs=False and tr="?tr1" and inc="?i1\<lparr>msgs := []\<rparr>",
      THEN conjunct2, THEN conjunct1, THEN mp, OF e]
  have 1: "createBiStreamingHandler env0 secondServer ?i1 = Some (Done, ?s1, ?tr1)"
    by (subst bidi_first_step[where rest="[]"]) (simp_all add: fin[simplified])
  have n: "msgs (twoMessages\<lparr>msgs := [Inr [(''n'', JNumber 1)]]\<rparr>) = Inr [(''n'', JNumber 1)] # [] \<and>
           noMatch (matchers ?s1) (request env0 [(''n'', JNumber 1)])"
    by (simp add: noMatch_second)
  note nf = th[where env=env0 and s="?s1" and hs=False and tr="?tr1"
      and inc="twoMessages\<lparr>msgs := [Inr [(''n'', JNumber 1)]]\<rparr>" and doc="[(''n'', JNumber 1)]"
      and rest="[]",
      THEN conjunct2, THEN conjunct2, THEN conjunct1, THEN mp, OF n]
  have 2: "createBiStreamingHandler env0 secondServer twoMessages =
     Some (Error notFound,
           secondServer\<lparr>requests := [request env0 [(''n'', JNumber 2)],
                                      request env0 [(''n'', JNumber 1)]],
                        matchers := [capture secondMatcher (request env0 [(''n'', JNumber 2)])]\<rparr>,
           ?tr1 @ [Received (Inr [(''n'', JNumber 1)])])"
    by (subst bidi_first_step[where rest="[Inr [(''n'', JNumber 1)]]"])
       (simp_all add: twoMessages_def nf[unfolded twoMessages_def, simplified])
  from 1 2 show ?thesis by simp
qed

end
